theory Spec2Isabelle
  imports Complex_Main "HOL-Library.Log_Nat"
begin

section \<open>Exact rationals of the unit registry\<close>

text \<open>
  Modelled from the spec: the exact-rational type \<^verbatim>\<open>std::ratio\<close> (header
  \<^verbatim>\<open><ratio>\<close> of the C++ standard library) is used by
  \<^verbatim>\<open>length.hpp\<close> but is not part of the repository. The spec asks for
  "a rational scale factor (numerator/denominator of arbitrary-precision integers, exact)";
  the members \<^verbatim>\<open>num\<close> and \<^verbatim>\<open>den\<close> of a
  \<^verbatim>\<open>std::ratio<N, D>\<close> are the numerator and denominator in lowest terms,
  the denominator positive.
\<close>

datatype std_ratio = Ratio (num: int) (den: int)

definition mk_ratio :: "int \<Rightarrow> int \<Rightarrow> std_ratio" where
  "mk_ratio N D = Ratio (sgn N * sgn D * \<bar>N\<bar> div gcd N D) (\<bar>D\<bar> div gcd N D)"

definition ratio_multiply :: "std_ratio \<Rightarrow> std_ratio \<Rightarrow> std_ratio" where
  "ratio_multiply R1 R2 = mk_ratio (num R1 * num R2) (den R1 * den R2)"

definition ratio_divide :: "std_ratio \<Rightarrow> std_ratio \<Rightarrow> std_ratio" where
  "ratio_divide R1 R2 = mk_ratio (num R1 * den R2) (den R1 * num R2)"

definition centi :: std_ratio where
  "centi = mk_ratio 1 100"

definition milli :: std_ratio where
  "milli = mk_ratio 1 1000"

definition ratio_value :: "std_ratio \<Rightarrow> rat" where
  "ratio_value R = of_int (num R) / of_int (den R)"

section \<open>The unit registry\<close>

text \<open>
  \<^verbatim>\<open>struct metre : length_unit<std::ratio<1>> {};\<close> and its four siblings
  (lines 42 to 46). The unit is a template parameter of \<^verbatim>\<open>Length\<close>, and the
  \<^verbatim>\<open>static_assert\<close> of the class admits these five tags only, so the
  tags form a closed enumeration.
\<close>

datatype length_unit = metre | centimetre | millimetre | inch | foot

definition inch_ratio :: std_ratio where
  "inch_ratio = ratio_multiply (mk_ratio 254 100) centi"

definition foot_ratio :: std_ratio where
  "foot_ratio = ratio_multiply (mk_ratio 12 1) inch_ratio"

fun ratio :: "length_unit \<Rightarrow> std_ratio" where
  "ratio metre = mk_ratio 1 1"
| "ratio centimetre = centi"
| "ratio millimetre = milli"
| "ratio inch = inch_ratio"
| "ratio foot = foot_ratio"

definition scale :: "length_unit \<Rightarrow> rat" where
  "scale u = ratio_value (ratio u)"

section \<open>Double-precision magnitudes\<close>

text \<open>
  Modelled from the spec: the magnitude is "a 64-bit floating point number" whose
  arithmetic "follows standard IEEE floating-point semantics". The C++
  \<^verbatim>\<open>double\<close> is a primitive of the language, so its values and
  operations are modelled here from IEEE 754 binary64 with the default rounding (to
  nearest, ties to even).

  A value is a NaN, a signed infinity, or a signed finite number
  \<open>(- 1)\<^sup>s * m * 2\<^sup>e\<close> with an integer significand \<open>m\<close>. The bit patterns
  of binary64 correspond to the values accepted by \<open>is_double\<close>: the significand
  has at most 53 bits, the exponent lies between \<open>- 1074\<close> and \<open>971\<close>, and a
  significand below \<open>2\<^sup>5\<^sup>2\<close> (a subnormal number or a zero) carries the least
  exponent. The sign flag is \<open>True\<close> for a negative number, so the two zeros are
  \<open>Finite False 0 (- 1074)\<close> and \<open>Finite True 0 (- 1074)\<close>. The payload bits
  of a NaN are not part of the model.
\<close>

datatype double = NaN | Infinity bool | Finite bool int int

fun is_double :: "double \<Rightarrow> bool" where
  "is_double NaN = True"
| "is_double (Infinity s) = True"
| "is_double (Finite s m e) =
     (0 \<le> m \<and> m < 2 ^ 53 \<and> - 1074 \<le> e \<and> e \<le> 971 \<and> (2 ^ 52 \<le> m \<or> e = - 1074))"

fun is_nan :: "double \<Rightarrow> bool" where
  "is_nan NaN = True"
| "is_nan _ = False"

fun is_finite :: "double \<Rightarrow> bool" where
  "is_finite (Finite s m e) = True"
| "is_finite _ = False"

fun valof :: "double \<Rightarrow> rat" where
  "valof (Finite s m e) = (if s then - 1 else 1) * of_int m * power_int 2 e"
| "valof _ = 0"

definition round_half_even :: "rat \<Rightarrow> int" where
  "round_half_even r =
     (let f = \<lfloor>r\<rfloor>; d = r - of_int f
      in if d < 1 / 2 then f else if 1 / 2 < d then f + 1 else if even f then f else f + 1)"

text \<open>The integer \<open>k\<close> with \<open>2\<^sup>k \<le> q < 2\<^sup>k\<^sup>+\<^sup>1\<close>, for a positive \<open>q\<close>.\<close>

definition ilog2 :: "rat \<Rightarrow> int" where
  "ilog2 q = (case quotient_of q of (a, b) \<Rightarrow>
     let k = bitlen a - bitlen b in if power_int 2 k \<le> q then k else k - 1)"

definition fexp :: "rat \<Rightarrow> int" where
  "fexp a = max (ilog2 a - 52) (- 1074)"

definition fsig :: "rat \<Rightarrow> int" where
  "fsig a = round_half_even (a / power_int 2 (fexp a))"

definition fpack :: "bool \<Rightarrow> int \<Rightarrow> int \<Rightarrow> double" where
  "fpack s m e =
     (if m = 2 ^ 53 then (if 971 < e + 1 then Infinity s else Finite s (2 ^ 52) (e + 1))
      else if 971 < e then Infinity s else Finite s m e)"

text \<open>
  Rounding of an exact result \<open>q\<close> to the nearest double; \<open>z\<close> is the sign given
  to an exact zero.
\<close>

definition fround :: "bool \<Rightarrow> rat \<Rightarrow> double" where
  "fround z q =
     (if q = 0 then Finite z 0 (- 1074) else fpack (q < 0) (fsig \<bar>q\<bar>) (fexp \<bar>q\<bar>))"

fun fmul :: "double \<Rightarrow> double \<Rightarrow> double" where
  "fmul NaN y = NaN"
| "fmul x NaN = NaN"
| "fmul (Infinity s) (Infinity t) = Infinity (s \<noteq> t)"
| "fmul (Infinity s) (Finite t n f) = (if n = 0 then NaN else Infinity (s \<noteq> t))"
| "fmul (Finite s m e) (Infinity t) = (if m = 0 then NaN else Infinity (s \<noteq> t))"
| "fmul (Finite s m e) (Finite t n f) =
     fround (s \<noteq> t) (valof (Finite s m e) * valof (Finite t n f))"

fun fdiv :: "double \<Rightarrow> double \<Rightarrow> double" where
  "fdiv NaN y = NaN"
| "fdiv x NaN = NaN"
| "fdiv (Infinity s) (Infinity t) = NaN"
| "fdiv (Infinity s) (Finite t n f) = Infinity (s \<noteq> t)"
| "fdiv (Finite s m e) (Infinity t) = Finite (s \<noteq> t) 0 (- 1074)"
| "fdiv (Finite s m e) (Finite t n f) =
     (if n = 0 then (if m = 0 then NaN else Infinity (s \<noteq> t))
      else fround (s \<noteq> t) (valof (Finite s m e) / valof (Finite t n f)))"

fun fadd :: "double \<Rightarrow> double \<Rightarrow> double" where
  "fadd NaN y = NaN"
| "fadd x NaN = NaN"
| "fadd (Infinity s) (Infinity t) = (if s = t then Infinity s else NaN)"
| "fadd (Infinity s) (Finite t n f) = Infinity s"
| "fadd (Finite s m e) (Infinity t) = Infinity t"
| "fadd (Finite s m e) (Finite t n f) =
     fround (s \<and> t) (valof (Finite s m e) + valof (Finite t n f))"

fun fneg :: "double \<Rightarrow> double" where
  "fneg NaN = NaN"
| "fneg (Infinity s) = Infinity (\<not> s)"
| "fneg (Finite s m e) = Finite (\<not> s) m e"

definition fsub :: "double \<Rightarrow> double \<Rightarrow> double" where
  "fsub x y = fadd x (fneg y)"

text \<open>The comparison \<^verbatim>\<open>==\<close> of two doubles: no NaN is equal to anything, the two zeros are equal.\<close>

fun feq :: "double \<Rightarrow> double \<Rightarrow> bool" where
  "feq NaN y = False"
| "feq x NaN = False"
| "feq (Infinity s) (Infinity t) = (s = t)"
| "feq (Infinity s) (Finite t n f) = False"
| "feq (Finite s m e) (Infinity t) = False"
| "feq (Finite s m e) (Finite t n f) = (valof (Finite s m e) = valof (Finite t n f))"

text \<open>The comparison \<^verbatim>\<open><\<close> of two doubles.\<close>

fun flt :: "double \<Rightarrow> double \<Rightarrow> bool" where
  "flt NaN y = False"
| "flt x NaN = False"
| "flt (Infinity s) (Infinity t) = (s \<and> \<not> t)"
| "flt (Infinity s) (Finite t n f) = s"
| "flt (Finite s m e) (Infinity t) = (\<not> t)"
| "flt (Finite s m e) (Finite t n f) = (valof (Finite s m e) < valof (Finite t n f))"

text \<open>\<^verbatim>\<open>static_cast<double>(n)\<close> of an integer, and a decimal literal such as \<^verbatim>\<open>0.2\<close>.\<close>

definition double_of_int :: "int \<Rightarrow> double" where
  "double_of_int n = fround False (of_int n)"

definition literal :: "rat \<Rightarrow> double" where
  "literal q = fround False q"

section \<open>Length and its operations\<close>

text \<open>
  \<^verbatim>\<open>template <typename Unit> class Length\<close> (lines 48 to 70): the unit is the
  static type tag, \<^verbatim>\<open>m_value\<close> the only runtime state. \<open>Length u v\<close> is
  \<^verbatim>\<open>Length<u>{v}\<close>, and \<open>value_of\<close> is the accessor \<^verbatim>\<open>value()\<close>.
\<close>

datatype Length = Length (base_unit: length_unit) (m_value: double)

definition value_of :: "Length \<Rightarrow> double" where
  "value_of l = m_value l"

text \<open>\<^verbatim>\<open>convert<FromUnit, ToUnit>(from)\<close>, lines 81 to 87.\<close>

definition convert :: "length_unit \<Rightarrow> length_unit \<Rightarrow> Length \<Rightarrow> Length" where
  "convert FromUnit ToUnit from =
     (let r = ratio_divide (ratio FromUnit) (ratio ToUnit)
      in Length ToUnit
           (fdiv (fmul (value_of from) (double_of_int (num r))) (double_of_int (den r))))"

text \<open>
  \<^verbatim>\<open>operator==\<close>, lines 100 to 108. \<open>Unit1\<close> and \<open>Unit2\<close> are deduced from the
  operands. \<open>op_eq_converted\<close> is the last statement of the body (line 107), which is
  what runs when the \<^verbatim>\<open>if constexpr\<close> does not return.
\<close>

definition op_eq_converted :: "Length \<Rightarrow> Length \<Rightarrow> bool" where
  "op_eq_converted lhs rhs =
     feq (value_of lhs) (value_of (convert (base_unit rhs) (base_unit lhs) rhs))"

definition op_eq :: "Length \<Rightarrow> Length \<Rightarrow> bool" where
  "op_eq lhs rhs =
     (if base_unit lhs = base_unit rhs then feq (value_of lhs) (value_of rhs)
      else op_eq_converted lhs rhs)"

text \<open>
  \<^verbatim>\<open>operator+\<close>, lines 112 to 116, and \<^verbatim>\<open>operator-\<close>, lines 120 to 124: a
  template for two units and an overload for one unit, which is the more specialised
  of the two and therefore the one called when both operands have the same unit.
\<close>

definition op_plus_units :: "Length \<Rightarrow> Length \<Rightarrow> Length" where
  "op_plus_units lhs rhs =
     Length (base_unit lhs)
       (fadd (value_of lhs) (value_of (convert (base_unit rhs) (base_unit lhs) rhs)))"

definition op_plus_same :: "Length \<Rightarrow> Length \<Rightarrow> Length" where
  "op_plus_same lhs rhs = Length (base_unit lhs) (fadd (value_of lhs) (value_of rhs))"

definition op_plus :: "Length \<Rightarrow> Length \<Rightarrow> Length" where
  "op_plus lhs rhs =
     (if base_unit lhs = base_unit rhs then op_plus_same lhs rhs else op_plus_units lhs rhs)"

definition op_minus_units :: "Length \<Rightarrow> Length \<Rightarrow> Length" where
  "op_minus_units lhs rhs =
     Length (base_unit lhs)
       (fsub (value_of lhs) (value_of (convert (base_unit rhs) (base_unit lhs) rhs)))"

definition op_minus_same :: "Length \<Rightarrow> Length \<Rightarrow> Length" where
  "op_minus_same lhs rhs = Length (base_unit lhs) (fsub (value_of lhs) (value_of rhs))"

definition op_minus :: "Length \<Rightarrow> Length \<Rightarrow> Length" where
  "op_minus lhs rhs =
     (if base_unit lhs = base_unit rhs then op_minus_same lhs rhs else op_minus_units lhs rhs)"

text \<open>
  \<^verbatim>\<open>operator*\<close>, lines 128 to 132, in both argument orders; both compute
  \<^verbatim>\<open>k * length.value()\<close>.
\<close>

definition op_times_left :: "double \<Rightarrow> Length \<Rightarrow> Length" where
  "op_times_left k l = Length (base_unit l) (fmul k (value_of l))"

definition op_times_right :: "Length \<Rightarrow> double \<Rightarrow> Length" where
  "op_times_right l k = Length (base_unit l) (fmul k (value_of l))"

text \<open>\<^verbatim>\<open>operator/\<close> by a scalar (line 137) and by a length (line 140).\<close>

definition op_div_scalar :: "Length \<Rightarrow> double \<Rightarrow> Length" where
  "op_div_scalar l k = Length (base_unit l) (fdiv (value_of l) k)"

definition op_div :: "Length \<Rightarrow> Length \<Rightarrow> double" where
  "op_div lhs rhs =
     fdiv (value_of lhs) (value_of (convert (base_unit rhs) (base_unit lhs) rhs))"

section \<open>Measures of rounding\<close>

text \<open>
  \<open>exact q\<close>: the rational \<open>q\<close> is a finite double, so that rounding leaves it
  unchanged. \<open>unit_roundoff\<close> is the largest relative error of one rounding in the
  normal range, and \<open>approx k x t\<close> says that the finite double \<open>x\<close> is the
  number \<open>t\<close> up to \<open>k\<close> roundings.
\<close>

definition exact :: "rat \<Rightarrow> bool" where
  "exact q \<longleftrightarrow> is_finite (fround False q) \<and> valof (fround False q) = q"

definition unit_roundoff :: rat where
  "unit_roundoff = 1 / 2 ^ 53"

definition approx :: "nat \<Rightarrow> double \<Rightarrow> rat \<Rightarrow> bool" where
  "approx k x t \<longleftrightarrow>
     is_double x \<and> is_finite x \<and> \<bar>valof x - t\<bar> \<le> ((1 + unit_roundoff) ^ k - 1) * \<bar>t\<bar>"

section \<open>Rounding to the nearest double\<close>

lemma quotient_of_pos:
  assumes "0 < q" "quotient_of q = (a, b)"
  shows "0 < a" "0 < b" "q = of_int a / of_int b"
proof -
  show b: "0 < b" using assms(2) by (rule quotient_of_denom_pos)
  show q: "q = of_int a / of_int b" using assms(2) by (rule quotient_of_div)
  from assms(1) q b show "0 < a"
    by (simp add: zero_less_divide_iff)
qed

lemma ilog2_bounds:
  assumes "0 < q"
  shows "power_int 2 (ilog2 q) \<le> q \<and> q < power_int 2 (ilog2 q + 1)"
proof -
  obtain a b where ab: "quotient_of q = (a, b)" by (cases "quotient_of q")
  note pos = quotient_of_pos [OF assms ab]
  define la where "la = bitlen a"
  define lb where "lb = bitlen b"
  from bitlen_bounds [OF pos(1)] have a: "2 ^ nat (la - 1) \<le> a" "a < 2 ^ nat la"
    by (simp_all add: la_def)
  from bitlen_bounds [OF pos(2)] have b: "2 ^ nat (lb - 1) \<le> b" "b < 2 ^ nat lb"
    by (simp_all add: lb_def)
  have la: "1 \<le> la" using pos(1) by (simp add: la_def bitlen_alt_def)
  have lb: "1 \<le> lb" using pos(2) by (simp add: lb_def bitlen_alt_def)
  have "(of_int (2 ^ nat (la - 1)) :: rat) \<le> of_int a" using a(1) by (simp only: of_int_le_iff)
  then have ra1: "(2::rat) powi (la - 1) \<le> of_int a" using la by (simp add: power_int_nonneg_exp)
  have "(of_int a :: rat) < of_int (2 ^ nat la)" using a(2) by (simp only: of_int_less_iff)
  then have ra2: "of_int a < (2::rat) powi la" using la by (simp add: power_int_nonneg_exp)
  have "(of_int (2 ^ nat (lb - 1)) :: rat) \<le> of_int b" using b(1) by (simp only: of_int_le_iff)
  then have rb1: "(2::rat) powi (lb - 1) \<le> of_int b" using lb by (simp add: power_int_nonneg_exp)
  have "(of_int b :: rat) < of_int (2 ^ nat lb)" using b(2) by (simp only: of_int_less_iff)
  then have rb2: "of_int b < (2::rat) powi lb" using lb by (simp add: power_int_nonneg_exp)
  have bpos: "(0::rat) < of_int b" using pos(2) by simp
  have apos: "(0::rat) < of_int a" using pos(1) by simp
  have up: "q < 2 powi (la - lb + 1)"
  proof -
    have "q * of_int b = of_int a" using pos(3) bpos by simp
    also have "\<dots> < 2 powi la" by (rule ra2)
    also have "\<dots> = 2 powi (la - lb + 1) * (2::rat) powi (lb - 1)"
      by (simp flip: power_int_add)
    also have "\<dots> \<le> 2 powi (la - lb + 1) * of_int b"
      using rb1 by (simp add: mult_left_mono)
    finally show ?thesis using bpos by simp
  qed
  have lo: "2 powi (la - lb - 1) \<le> q"
  proof -
    have "2 powi (la - lb - 1) * of_int b \<le> 2 powi (la - lb - 1) * (2::rat) powi lb"
      using rb2 by (simp add: mult_left_mono)
    also have "\<dots> = 2 powi (la - 1)"
      by (simp flip: power_int_add)
    also have "\<dots> \<le> of_int a" by (rule ra1)
    also have "\<dots> = q * of_int b" using pos(3) bpos by simp
    finally show ?thesis using bpos by simp
  qed
  have step: "(2::rat) powi (k + 1) = 2 * 2 powi k" for k
    by (simp add: power_int_add)
  show ?thesis
  proof (cases "2 powi (la - lb) \<le> q")
    case True
    then show ?thesis using up by (simp add: ilog2_def ab la_def lb_def)
  next
    case False
    then show ?thesis using lo by (simp add: ilog2_def ab la_def lb_def)
  qed
qed

lemma pow2_less_iff: "(2::rat) powi m < 2 powi n \<longleftrightarrow> m < n"
proof
  assume "(2::rat) powi m < 2 powi n"
  show "m < n"
  proof (rule ccontr)
    assume "\<not> m < n"
    then have "n \<le> m" by simp
    then have "(2::rat) powi n \<le> 2 powi m" by (rule power_int_increasing) simp
    with \<open>(2::rat) powi m < 2 powi n\<close> show False by simp
  qed
next
  assume "m < n"
  then show "(2::rat) powi m < 2 powi n" by (rule power_int_strict_increasing) simp
qed

lemma pow2_le_iff: "(2::rat) powi m \<le> 2 powi n \<longleftrightarrow> m \<le> n"
  using pow2_less_iff [of n m] by (simp add: not_less [symmetric])

lemma ilog2_unique:
  assumes "power_int 2 k \<le> q" "q < power_int 2 (k + 1)"
  shows "ilog2 q = k"
proof -
  have "(0::rat) < power_int 2 k" by simp
  with assms(1) have q: "0 < q" by linarith
  from ilog2_bounds [OF q] have b: "power_int 2 (ilog2 q) \<le> q" "q < power_int 2 (ilog2 q + 1)"
    by simp_all
  have "(2::rat) powi k < 2 powi (ilog2 q + 1)" using assms(1) b(2) by linarith
  then have 1: "k < ilog2 q + 1" by (simp add: pow2_less_iff)
  have "(2::rat) powi (ilog2 q) < 2 powi (k + 1)" using assms(2) b(1) by linarith
  then have 2: "ilog2 q < k + 1" by (simp add: pow2_less_iff)
  from 1 2 show ?thesis by linarith
qed

lemma round_half_even_of_int [simp]: "round_half_even (of_int n) = n"
  by (simp add: round_half_even_def)


lemma round_half_even_cases:
  "round_half_even r = \<lfloor>r\<rfloor> \<or> round_half_even r = \<lfloor>r\<rfloor> + 1"
  by (simp add: round_half_even_def Let_def)

lemma round_half_even_error: "\<bar>of_int (round_half_even r) - r\<bar> \<le> 1 / 2"
proof -
  have "of_int \<lfloor>r\<rfloor> \<le> r" "r < of_int \<lfloor>r\<rfloor> + 1" by linarith+
  then show ?thesis
    by (simp add: round_half_even_def Let_def abs_le_iff)
qed

lemma round_half_even_ge:
  assumes "of_int n \<le> r"
  shows "n \<le> round_half_even r"
proof -
  have "n \<le> \<lfloor>r\<rfloor>" using assms by (simp add: le_floor_iff)
  with round_half_even_cases [of r] show ?thesis by auto
qed

lemma round_half_even_le:
  assumes "r \<le> of_int n"
  shows "round_half_even r \<le> n"
proof -
  have f: "\<lfloor>r\<rfloor> \<le> n" using assms by (simp add: floor_le_iff)
  show ?thesis
  proof (cases "r = of_int \<lfloor>r\<rfloor>")
    case True
    then have "round_half_even r = \<lfloor>r\<rfloor>" by (simp add: round_half_even_def)
    with f show ?thesis by simp
  next
    case False
    then have "of_int \<lfloor>r\<rfloor> < r" using of_int_floor_le [of r] by linarith
    with assms have "(of_int \<lfloor>r\<rfloor> :: rat) < of_int n" by linarith
    then have "\<lfloor>r\<rfloor> < n" by (simp only: of_int_less_iff)
    with round_half_even_cases [of r] show ?thesis by auto
  qed
qed

lemma fexp_normal:
  assumes "2 powi k \<le> a" "a < 2 powi (k + 1)" "- 1022 \<le> k"
  shows "fexp a = k - 52"
  using ilog2_unique [OF assms(1,2)] assms(3) by (simp add: fexp_def)

lemma fexp_subnormal:
  assumes "0 < a" "a < 2 powi (- 1022)"
  shows "fexp a = - 1074"
proof -
  from ilog2_bounds [OF assms(1)] assms(2) have "(2::rat) powi (ilog2 a) < 2 powi (- 1022)"
    by linarith
  then have "ilog2 a < - 1022" by (simp only: pow2_less_iff)
  then show ?thesis by (simp add: fexp_def)
qed

lemma fround_valof:
  assumes "is_double (Finite s m e)" "0 < m"
  shows "fround z (valof (Finite s m e)) = Finite s m e"
proof -
  define a :: rat where "a = of_int m * 2 powi e"
  have mpos: "(0::rat) < of_int m" using assms(2) by simp
  have apos: "0 < a" using mpos by (simp add: a_def)
  have val: "valof (Finite s m e) = (if s then - a else a)" by (simp add: a_def)
  have abs: "\<bar>valof (Finite s m e)\<bar> = a" using apos unfolding val by simp
  have neg: "valof (Finite s m e) < 0 \<longleftrightarrow> s" using apos unfolding val by simp
  have nz: "valof (Finite s m e) \<noteq> 0" using apos unfolding val by simp
  have m53: "m < 2 ^ 53" and e971: "e \<le> 971" using assms(1) by simp_all
  have ex: "fexp a = e"
  proof (cases "2 ^ 52 \<le> m")
    case True
    then have "(of_int (2 ^ 52) :: rat) \<le> of_int m" by (simp only: of_int_le_iff)
    then have "(2::rat) powi 52 * 2 powi e \<le> a" by (simp add: a_def)
    then have lo: "(2::rat) powi (e + 52) \<le> a" by (simp add: power_int_add add.commute)
    from m53 have "(of_int m :: rat) < of_int (2 ^ 53)" by (simp only: of_int_less_iff)
    then have "a < (2::rat) powi 53 * 2 powi e" by (simp add: a_def)
    then have hi: "a < (2::rat) powi (e + 52 + 1)" by (simp add: power_int_add add.commute)
    from assms(1) have "- 1022 \<le> e + 52" by simp
    from fexp_normal [OF lo hi this] show ?thesis by simp
  next
    case False
    with assms(1) have e: "e = - 1074" by simp
    from False have "(of_int m :: rat) < of_int (2 ^ 52)" by (simp only: of_int_less_iff)
    then have "a < (2::rat) powi 52 * 2 powi (- 1074)" by (simp add: a_def e)
    also have "\<dots> = 2 powi (- 1022)" by (simp flip: power_int_add)
    finally show ?thesis using fexp_subnormal [OF apos] e by simp
  qed
  have sg: "fsig a = m" by (simp add: fsig_def ex) (simp add: a_def)
  from m53 e971 have "fpack s m e = Finite s m e" by (simp add: fpack_def)
  then show ?thesis by (simp add: fround_def nz abs neg ex sg del: valof.simps)
qed

lemma double_of_int_1: "double_of_int 1 = Finite False (2 ^ 52) (- 52)"
  by code_simp

lemma fmul_1:
  assumes "is_double x"
  shows "fmul x (double_of_int 1) = x"
proof (cases x)
  case (Finite s m e)
  show ?thesis
  proof (cases "m = 0")
    case True
    with assms Finite show ?thesis by (simp add: double_of_int_1 fround_def)
  next
    case False
    with assms Finite have "0 < m" by simp
    from fround_valof [OF assms [unfolded Finite] this, of s] Finite
    show ?thesis by (simp add: double_of_int_1 flip: power_int_add)
  qed
qed (simp_all add: double_of_int_1)

lemma fdiv_1:
  assumes "is_double x"
  shows "fdiv x (double_of_int 1) = x"
proof (cases x)
  case (Finite s m e)
  show ?thesis
  proof (cases "m = 0")
    case True
    with assms Finite show ?thesis by (simp add: double_of_int_1 fround_def)
  next
    case False
    with assms Finite have "0 < m" by simp
    from fround_valof [OF assms [unfolded Finite] this, of s] Finite
    show ?thesis by (simp add: double_of_int_1 flip: power_int_add)
  qed
qed (simp_all add: double_of_int_1)


lemma pow2_Suc: "(2::rat) powi (j + 1) = 2 * 2 powi j"
  by (simp add: power_int_add)

lemma fround_normal:
  assumes lo: "2 powi (- 1022) \<le> \<bar>q\<bar>" and hi: "\<bar>q\<bar> < 2 powi 1023"
  shows "is_double (fround z q) \<and> is_finite (fround z q)
         \<and> \<bar>valof (fround z q) - q\<bar> \<le> \<bar>q\<bar> / 2 ^ 53"
proof -
  define a where "a = \<bar>q\<bar>"
  define k where "k = ilog2 a"
  have "(0::rat) < 2 powi (- 1022)" by simp
  with lo have apos: "0 < a" unfolding a_def by linarith
  then have qnz: "q \<noteq> 0" by (auto simp: a_def)
  from ilog2_bounds [OF apos] have kb: "2 powi k \<le> a" "a < 2 powi (k + 1)"
    by (simp_all add: k_def)
  from lo kb(2) have "(2::rat) powi (- 1022) < 2 powi (k + 1)" unfolding a_def by linarith
  then have k1: "- 1022 \<le> k" unfolding pow2_less_iff by linarith
  from hi kb(1) have "(2::rat) powi k < 2 powi 1023" unfolding a_def by linarith
  then have k2: "k \<le> 1022" unfolding pow2_less_iff by linarith
  have ex: "fexp a = k - 52" using fexp_normal [OF kb k1] .
  define p :: rat where "p = 2 powi (k - 52)"
  have ppos: "0 < p" by (simp add: p_def)
  define r where "r = a / p"
  have p52: "2 powi k = 2 ^ 52 * p"
    by (simp add: p_def power_int_diff)
  have p53: "2 powi (k + 1) = 2 ^ 53 * p"
    by (simp add: p_def power_int_diff power_int_add)
  have r1: "of_int (2 ^ 52) \<le> r" using kb(1) ppos by (simp add: r_def p52 pos_le_divide_eq)
  have r2: "r \<le> of_int (2 ^ 53)" using kb(2) ppos by (simp add: r_def p53 pos_divide_le_eq)
  define M where "M = round_half_even r"
  have M1: "2 ^ 52 \<le> M" unfolding M_def using r1 by (rule round_half_even_ge)
  have M2: "M \<le> 2 ^ 53" unfolding M_def using r2 by (rule round_half_even_le)
  have Merr: "\<bar>of_int M - r\<bar> \<le> 1 / 2" unfolding M_def by (rule round_half_even_error)
  have sg: "fsig a = M" by (simp add: fsig_def ex M_def r_def p_def)
  define s where "s = (q < 0)"
  have fr: "fround z q = fpack s M (k - 52)"
    using qnz by (simp add: fround_def s_def sg ex flip: a_def)
  have qs: "q = (if s then - 1 else 1) * (r * p)"
    using ppos by (simp add: s_def r_def a_def)
  have pk: "is_double (fpack s M (k - 52)) \<and> is_finite (fpack s M (k - 52))
            \<and> valof (fpack s M (k - 52)) = (if s then - 1 else 1) * (of_int M * p)"
  proof (cases "M = 2 ^ 53")
    case True
    have "(2::rat) powi (k - 52 + 1) = 2 * p" unfolding p_def by (rule pow2_Suc)
    then show ?thesis using True k1 k2 by (simp add: fpack_def)
  next
    case False
    with M2 have "M < 2 ^ 53" by simp
    then show ?thesis using False M1 k1 k2 by (simp add: fpack_def p_def)
  qed
  define V where "V = valof (fround z q)"
  have v: "V = (if s then - 1 else 1) * (of_int M * p)" using pk by (simp only: V_def fr)
  have "\<bar>V - q\<bar> = \<bar>of_int M - r\<bar> * p"
  proof -
    have "V - q = (if s then - 1 else 1) * ((of_int M - r) * p)"
      by (simp add: v qs algebra_simps)
    then show ?thesis using ppos by (simp add: abs_mult)
  qed
  also have "\<dots> \<le> (1 / 2) * p" using Merr ppos by (simp add: mult_right_mono)
  also have "\<dots> = 2 powi k / 2 ^ 53" by (simp add: p52)
  also have "\<dots> \<le> a / 2 ^ 53" using kb(1) by (simp add: divide_right_mono)
  finally have "\<bar>valof (fround z q) - q\<bar> \<le> \<bar>q\<bar> / 2 ^ 53" by (simp only: a_def V_def)
  with pk show ?thesis by (simp only: fr simp_thms)
qed

subsection \<open>The operations return doubles\<close>

lemma fround_is_double: "is_double (fround z q)"
proof (cases "q = 0")
  case True
  then show ?thesis by (simp add: fround_def)
next
  case False
  define a where "a = \<bar>q\<bar>"
  define k where "k = ilog2 a"
  have apos: "0 < a" using False by (simp add: a_def)
  from ilog2_bounds [OF apos] have kb: "2 powi k \<le> a" "a < 2 powi (k + 1)"
    by (simp_all add: k_def)
  define e where "e = fexp a"
  define p :: rat where "p = 2 powi e"
  have ppos: "0 < p" by (simp add: p_def)
  define M where "M = fsig a"
  have M: "M = round_half_even (a / p)" by (simp add: M_def fsig_def e_def p_def)
  have fr: "fround z q = fpack (q < 0) M e"
    using False by (simp add: fround_def M_def e_def a_def)
  have "0 \<le> M \<and> M \<le> 2 ^ 53 \<and> - 1074 \<le> e \<and> (2 ^ 52 \<le> M \<or> e = - 1074)"
  proof (cases "- 1022 \<le> k")
    case True
    then have e: "e = k - 52" by (simp add: e_def fexp_def k_def)
    have p52: "2 powi k = 2 ^ 52 * p"
      by (simp add: p_def e power_int_diff)
    have p53: "2 powi (k + 1) = 2 ^ 53 * p"
      by (simp add: p_def e power_int_diff power_int_add)
    have r1: "of_int (2 ^ 52) \<le> a / p" using kb(1) ppos by (simp add: p52 pos_le_divide_eq)
    have r2: "a / p \<le> of_int (2 ^ 53)" using kb(2) ppos by (simp add: p53 pos_divide_le_eq)
    have M1: "2 ^ 52 \<le> M" unfolding M using r1 by (rule round_half_even_ge)
    have M2: "M \<le> 2 ^ 53" unfolding M using r2 by (rule round_half_even_le)
    from M1 M2 True show ?thesis by (simp add: e)
  next
    case False
    then have e: "e = - 1074" by (simp add: e_def fexp_def k_def)
    from False have "k + 1 \<le> - 1022" by simp
    then have "(2::rat) powi (k + 1) \<le> 2 powi (- 1022)" by (simp only: pow2_le_iff)
    also have "\<dots> = 2 ^ 52 * p" by (simp add: p_def e flip: power_int_add)
    finally have "a \<le> 2 ^ 52 * p" using kb(2) by linarith
    then have r2: "a / p \<le> of_int (2 ^ 52)" using ppos by (simp add: pos_divide_le_eq)
    have r1: "of_int 0 \<le> a / p" using apos ppos by simp
    have M1: "0 \<le> M" unfolding M using r1 by (rule round_half_even_ge)
    have M2: "M \<le> 2 ^ 52" unfolding M using r2 by (rule round_half_even_le)
    from M1 M2 show ?thesis by (simp add: e)
  qed
  then show ?thesis unfolding fr by (auto simp add: fpack_def)
qed

lemma fmul_is_double: "is_double (fmul x y)"
  by (cases x; cases y) (simp_all add: fround_is_double del: valof.simps)

lemma fdiv_is_double: "is_double (fdiv x y)"
  by (cases x; cases y) (simp_all add: fround_is_double del: valof.simps)

lemma fadd_is_double: "is_double (fadd x y)"
  by (cases x; cases y) (simp_all add: fround_is_double del: valof.simps)

lemma fsub_is_double: "is_double (fsub x y)"
  by (simp add: fsub_def fadd_is_double)

subsection \<open>Exactly representable results\<close>

lemma fround_sign_irrelevant:
  "valof (fround z q) = valof (fround False q)" "is_finite (fround z q) = is_finite (fround False q)"
  by (simp_all add: fround_def)

lemma exact_fround:
  assumes "exact q"
  shows "is_finite (fround z q)" "valof (fround z q) = q"
  using assms fround_sign_irrelevant [of z q] by (simp_all add: exact_def)

lemma exact_valof:
  assumes "is_double x" "is_finite x"
  shows "exact (valof x)"
proof -
  from assms(2) obtain s m e where x: "x = Finite s m e" by (cases x) simp_all
  show ?thesis
  proof (cases "m = 0")
    case True
    then show ?thesis by (simp add: exact_def x fround_def)
  next
    case False
    with assms(1) have "0 < m" by (simp add: x)
    from fround_valof [OF assms(1) [unfolded x] this, of False]
    show ?thesis unfolding exact_def x by simp
  qed
qed

lemma fmul_exact:
  assumes "is_finite x" "is_finite N" "valof N = of_int n" "exact (valof x * of_int n)"
  shows "is_finite (fmul x N)" "valof (fmul x N) = valof x * of_int n"
proof -
  from assms(1) obtain s m e where x: "x = Finite s m e" by (cases x) simp_all
  from assms(2) obtain s' m' e' where N: "N = Finite s' m' e'" by (cases N) simp_all
  have "fmul x N = fround (s \<noteq> s') (valof x * of_int n)"
    unfolding x N fmul.simps using assms(3) by (simp only: N)
  with exact_fround [OF assms(4), of "s \<noteq> s'"]
  show "is_finite (fmul x N)" "valof (fmul x N) = valof x * of_int n" by simp_all
qed

lemma fdiv_exact:
  assumes "is_finite x" "is_finite N" "valof N = of_int n" "1 \<le> n"
    "exact (valof x / of_int n)"
  shows "is_finite (fdiv x N)" "valof (fdiv x N) = valof x / of_int n"
proof -
  from assms(1) obtain s m e where x: "x = Finite s m e" by (cases x) simp_all
  from assms(2) obtain s' m' e' where N: "N = Finite s' m' e'" by (cases N) simp_all
  have npos: "(0::rat) < of_int n" using assms(4) by simp
  have m': "m' \<noteq> 0" using assms(3) npos unfolding N by auto
  have "fdiv x N = fround (s \<noteq> s') (valof x / of_int n)"
    unfolding x N fdiv.simps using assms(3) m' by (simp only: N if_False)
  with exact_fround [OF assms(5), of "s \<noteq> s'"]
  show "is_finite (fdiv x N)" "valof (fdiv x N) = valof x / of_int n" by simp_all
qed

lemma fround_valof_any:
  assumes "is_double x" "is_finite x" "valof x \<noteq> 0"
  shows "fround z (valof x) = x"
proof -
  from assms(2) obtain s m e where x: "x = Finite s m e" by (cases x) simp_all
  from assms(1,3) have "0 < m" unfolding x by (cases "m = 0") simp_all
  from fround_valof [OF assms(1) [unfolded x] this] show ?thesis unfolding x .
qed

lemma fmul_fround:
  assumes "is_finite x" "is_finite N" "valof N = of_int n"
  shows "\<exists>z. fmul x N = fround z (valof x * of_int n)"
proof -
  from assms(1) obtain s m e where x: "x = Finite s m e" by (cases x) simp_all
  from assms(2) obtain s' m' e' where N: "N = Finite s' m' e'" by (cases N) simp_all
  have "fmul x N = fround (s \<noteq> s') (valof x * of_int n)"
    unfolding x N fmul.simps using assms(3) by (simp only: N)
  then show ?thesis ..
qed

lemma fdiv_fround:
  assumes "is_finite x" "is_finite N" "valof N = of_int n" "1 \<le> n"
  shows "\<exists>z. fdiv x N = fround z (valof x / of_int n)"
proof -
  from assms(1) obtain s m e where x: "x = Finite s m e" by (cases x) simp_all
  from assms(2) obtain s' m' e' where N: "N = Finite s' m' e'" by (cases N) simp_all
  have npos: "(0::rat) < of_int n" using assms(4) by simp
  have m': "m' \<noteq> 0" using assms(3) npos unfolding N by auto
  have "fdiv x N = fround (s \<noteq> s') (valof x / of_int n)"
    unfolding x N fdiv.simps using assms(3) m' by (simp only: N if_False)
  then show ?thesis ..
qed

lemma positive_double:
  assumes "is_double N" "is_finite N" "valof N = of_int n" "1 \<le> n"
  shows "\<exists>m e. N = Finite False m e \<and> 0 < m"
proof -
  from assms(2) obtain s m e where N: "N = Finite s m e" by (cases N) simp_all
  from assms(1) have m: "0 \<le> m" unfolding N by simp
  have p: "(0::rat) < 2 powi e" by simp
  have q: "\<not> (2::rat) powi e < 0" by (simp add: not_less)
  have "(0::rat) < of_int n" using assms(4) by simp
  with assms(3) have v: "0 < valof (Finite s m e)" unfolding N by simp
  have "\<not> s \<and> 0 < m"
  proof (cases s)
    case True
    with v have "(of_int m :: rat) * 2 powi e < 0" by simp
    with p q have "(of_int m :: rat) < 0" by (auto simp: mult_less_0_iff)
    with m show ?thesis by simp
  next
    case False
    with v have "0 < (of_int m :: rat) * 2 powi e" by simp
    with p q have "(0::rat) < of_int m" by (auto simp: zero_less_mult_iff)
    with False show ?thesis by simp
  qed
  with N show ?thesis by simp
qed

lemma fmul_zero:
  assumes "is_double N" "is_finite N" "valof N = of_int n" "1 \<le> n"
  shows "fmul (Finite s 0 e) N = Finite s 0 (- 1074)"
proof -
  from positive_double [OF assms] obtain m' e' where "N = Finite False m' e'" by blast
  then show ?thesis by (simp add: fround_def)
qed

lemma fdiv_zero:
  assumes "is_double N" "is_finite N" "valof N = of_int n" "1 \<le> n"
  shows "fdiv (Finite s 0 e) N = Finite s 0 (- 1074)"
proof -
  from positive_double [OF assms] obtain m' e' where "N = Finite False m' e'" "0 < m'" by blast
  then show ?thesis by (simp add: fround_def)
qed

lemma fround_overflow:
  assumes "2 powi 1024 \<le> \<bar>q\<bar>"
  shows "fround z q = Infinity (q < 0)"
proof -
  have "(0::rat) < 2 powi 1024" by (rule zero_less_power_int) simp
  with assms have apos: "0 < \<bar>q\<bar>" by linarith
  then have qnz: "q \<noteq> 0" by auto
  from ilog2_bounds [OF apos] assms have "(2::rat) powi 1024 < 2 powi (ilog2 \<bar>q\<bar> + 1)"
    by linarith
  then have "1024 \<le> ilog2 \<bar>q\<bar>" unfolding pow2_less_iff by linarith
  then have "971 < fexp \<bar>q\<bar>" by (simp add: fexp_def)
  then show ?thesis using qnz by (simp add: fround_def fpack_def)
qed

subsection \<open>Accumulated rounding error\<close>

lemma unit_roundoff_pos: "0 < unit_roundoff"
  by (simp add: unit_roundoff_def)

lemma roundoff_power_ge_1: "1 \<le> (1 + unit_roundoff) ^ k"
  using unit_roundoff_pos by (simp add: one_le_power)

lemma roundoff_power_le:
  assumes "k \<le> 4"
  shows "(1 + unit_roundoff) ^ k \<le> 3 / 2"
proof -
  have "(1 + unit_roundoff) ^ k \<le> (1 + unit_roundoff) ^ 4"
    using assms unit_roundoff_pos by (intro power_increasing) simp_all
  also have "\<dots> \<le> 3 / 2" by code_simp
  finally show ?thesis .
qed

lemma round_step:
  fixes v t r u :: rat
  assumes "\<bar>v - t\<bar> \<le> (c - 1) * \<bar>t\<bar>" "\<bar>r - v\<bar> \<le> \<bar>v\<bar> * u" "0 \<le> u" "1 \<le> c"
  shows "\<bar>r - t\<bar> \<le> (c * (1 + u) - 1) * \<bar>t\<bar>"
proof -
  have "\<bar>v\<bar> \<le> \<bar>t\<bar> + \<bar>v - t\<bar>" by linarith
  also have "\<dots> \<le> \<bar>t\<bar> + (c - 1) * \<bar>t\<bar>" using assms(1) by simp
  also have "\<dots> = c * \<bar>t\<bar>" by (simp add: algebra_simps)
  finally have v: "\<bar>v\<bar> \<le> c * \<bar>t\<bar>" .
  have "\<bar>r - t\<bar> \<le> \<bar>r - v\<bar> + \<bar>v - t\<bar>" by linarith
  also have "\<dots> \<le> \<bar>v\<bar> * u + (c - 1) * \<bar>t\<bar>" using assms(1,2) by linarith
  also have "\<dots> \<le> (c * \<bar>t\<bar>) * u + (c - 1) * \<bar>t\<bar>"
    using v assms(3) by (simp add: mult_right_mono)
  also have "\<dots> = (c * (1 + u) - 1) * \<bar>t\<bar>" by (simp add: algebra_simps)
  finally show ?thesis .
qed

lemma approx_range:
  assumes "\<bar>v - t\<bar> \<le> ((1 + unit_roundoff) ^ k - 1) * \<bar>t\<bar>" "k \<le> 4"
  shows "\<bar>t\<bar> / 2 \<le> \<bar>v\<bar>" "\<bar>v\<bar> \<le> 3 / 2 * \<bar>t\<bar>"
proof -
  define c where "c = (1 + unit_roundoff) ^ k"
  have c: "1 \<le> c" "c \<le> 3 / 2"
    using roundoff_power_ge_1 [of k] roundoff_power_le [OF assms(2)] by (simp_all add: c_def)
  have d: "\<bar>v - t\<bar> \<le> (c - 1) * \<bar>t\<bar>" using assms(1) by (simp add: c_def)
  have "(c - 1) * \<bar>t\<bar> \<le> (1 / 2) * \<bar>t\<bar>" using c by (intro mult_right_mono) simp_all
  with d have e: "\<bar>v - t\<bar> \<le> \<bar>t\<bar> / 2" by simp
  then show "\<bar>t\<bar> / 2 \<le> \<bar>v\<bar>" by linarith
  from e show "\<bar>v\<bar> \<le> 3 / 2 * \<bar>t\<bar>" by linarith
qed

lemma fround_step:
  assumes d: "\<bar>v - t\<bar> \<le> ((1 + unit_roundoff) ^ k - 1) * \<bar>t\<bar>" and k: "k \<le> 4"
    and lo: "2 powi (- 1021) \<le> \<bar>t\<bar>" and hi: "\<bar>t\<bar> \<le> 2 powi 1022"
  shows "approx (Suc k) (fround z v) t"
proof -
  note r = approx_range [OF d k]
  have e1: "(2::rat) powi (- 1021) = 2 * 2 powi (- 1022)"
    using pow2_Suc [of "- 1022"] by simp
  have e2: "(2::rat) powi 1023 = 2 * 2 powi 1022"
    using pow2_Suc [of "1022"] by simp
  have lo': "2 powi (- 1022) \<le> \<bar>v\<bar>" using r(1) lo unfolding e1 by linarith
  have "(0::rat) < 2 powi 1022" by (rule zero_less_power_int) simp
  then have hi': "\<bar>v\<bar> < 2 powi 1023" using r(2) hi unfolding e2 by linarith
  from fround_normal [OF lo' hi', of z]
  have f: "is_double (fround z v)" "is_finite (fround z v)"
    "\<bar>valof (fround z v) - v\<bar> \<le> \<bar>v\<bar> * unit_roundoff"
    by (simp_all add: unit_roundoff_def)
  have "\<bar>valof (fround z v) - t\<bar> \<le> ((1 + unit_roundoff) ^ k * (1 + unit_roundoff) - 1) * \<bar>t\<bar>"
    using d f(3) unit_roundoff_pos roundoff_power_ge_1 [of k] by (intro round_step) simp_all
  with f(1,2) show ?thesis by (simp add: approx_def mult.commute)
qed

lemma fmul_step:
  assumes "approx k x t" "k \<le> 4" "is_finite N" "valof N = of_int n" "1 \<le> n"
    and "2 powi (- 1021) \<le> \<bar>t * of_int n\<bar>" "\<bar>t * of_int n\<bar> \<le> 2 powi 1022"
  shows "approx (Suc k) (fmul x N) (t * of_int n)"
proof -
  from assms(1) obtain s m e where x: "x = Finite s m e"
    by (cases x) (simp_all add: approx_def)
  from assms(3) obtain s' m' e' where N: "N = Finite s' m' e'" by (cases N) simp_all
  have npos: "(0::rat) < of_int n" using assms(5) by simp
  have "\<bar>valof x * of_int n - t * of_int n\<bar> = \<bar>valof x - t\<bar> * of_int n"
    using npos by (simp add: abs_mult flip: left_diff_distrib)
  also have "\<dots> \<le> (((1 + unit_roundoff) ^ k - 1) * \<bar>t\<bar>) * of_int n"
    using assms(1) npos by (simp add: approx_def)
  also have "\<dots> = ((1 + unit_roundoff) ^ k - 1) * \<bar>t * of_int n\<bar>"
    using npos by (simp add: abs_mult)
  finally have d: "\<bar>valof x * of_int n - t * of_int n\<bar>
      \<le> ((1 + unit_roundoff) ^ k - 1) * \<bar>t * of_int n\<bar>" .
  have "fmul x N = fround (s \<noteq> s') (valof x * of_int n)"
    unfolding x N fmul.simps using assms(4) by (simp only: N)
  with fround_step [OF d assms(2) assms(6,7)] show ?thesis by simp
qed

lemma fdiv_step:
  assumes "approx k x t" "k \<le> 4" "is_finite N" "valof N = of_int n" "1 \<le> n"
    and "2 powi (- 1021) \<le> \<bar>t / of_int n\<bar>" "\<bar>t / of_int n\<bar> \<le> 2 powi 1022"
  shows "approx (Suc k) (fdiv x N) (t / of_int n)"
proof -
  from assms(1) obtain s m e where x: "x = Finite s m e"
    by (cases x) (simp_all add: approx_def)
  from assms(3) obtain s' m' e' where N: "N = Finite s' m' e'" by (cases N) simp_all
  have npos: "(0::rat) < of_int n" using assms(5) by simp
  have m': "m' \<noteq> 0" using assms(4) npos unfolding N by auto
  have "\<bar>valof x / of_int n - t / of_int n\<bar> = \<bar>valof x - t\<bar> / of_int n"
    using npos by (simp add: abs_divide flip: diff_divide_distrib)
  also have "\<dots> \<le> (((1 + unit_roundoff) ^ k - 1) * \<bar>t\<bar>) / of_int n"
    using assms(1) npos by (simp add: approx_def divide_right_mono)
  also have "\<dots> = ((1 + unit_roundoff) ^ k - 1) * \<bar>t / of_int n\<bar>"
    using npos by (simp add: abs_divide)
  finally have d: "\<bar>valof x / of_int n - t / of_int n\<bar>
      \<le> ((1 + unit_roundoff) ^ k - 1) * \<bar>t / of_int n\<bar>" .
  have "fdiv x N = fround (s \<noteq> s') (valof x / of_int n)"
    unfolding x N fdiv.simps using assms(4) m' by (simp only: N if_False)
  with fround_step [OF d assms(2) assms(6,7)] show ?thesis by simp
qed

lemma pow2_5000: "(5000::rat) \<le> 2 powi 13"
  by simp

lemma range_mul:
  fixes v :: rat
  assumes "2 powi (- 1000) \<le> \<bar>v\<bar>" "\<bar>v\<bar> \<le> 2 powi 1000" "1 \<le> n" "n \<le> 5000"
  shows "2 powi (- 1021) \<le> \<bar>v * of_int n\<bar>" "\<bar>v * of_int n\<bar> \<le> 2 powi 1022"
proof -
  have n1: "(1::rat) \<le> of_int n" using assms(3) by simp
  have n2: "(of_int n :: rat) \<le> 2 powi 13" using assms(4) pow2_5000 by linarith
  have a: "\<bar>v * of_int n\<bar> = \<bar>v\<bar> * of_int n" using n1 by (simp add: abs_mult)
  have "(2::rat) powi (- 1021) \<le> 2 powi (- 1000)" unfolding pow2_le_iff by simp
  also have "\<dots> \<le> \<bar>v\<bar> * 1" using assms(1) by simp
  also have "\<dots> \<le> \<bar>v\<bar> * of_int n" using n1 by (intro mult_left_mono) simp_all
  finally show "2 powi (- 1021) \<le> \<bar>v * of_int n\<bar>" unfolding a .
  have "\<bar>v\<bar> * of_int n \<le> 2 powi 1000 * 2 powi 13"
    using assms(2) n1 n2 by (intro mult_mono) simp_all
  also have "\<dots> = 2 powi 1013" by (simp flip: power_int_add)
  also have "\<dots> \<le> 2 powi 1022" unfolding pow2_le_iff by simp
  finally show "\<bar>v * of_int n\<bar> \<le> 2 powi 1022" unfolding a .
qed

lemma range_mul_div:
  fixes v :: rat
  assumes "2 powi (- 1000) \<le> \<bar>v\<bar>" "\<bar>v\<bar> \<le> 2 powi 1000" "1 \<le> n" "n \<le> 5000"
    "1 \<le> d" "d \<le> 5000"
  shows "2 powi (- 1021) \<le> \<bar>v * of_int n / of_int d\<bar>"
    "\<bar>v * of_int n / of_int d\<bar> \<le> 2 powi 1022"
proof -
  have d1: "(1::rat) \<le> of_int d" using assms(5) by simp
  have d2: "(of_int d :: rat) \<le> 2 powi 13" using assms(6) pow2_5000 by linarith
  have n1: "(1::rat) \<le> of_int n" using assms(3) by simp
  have a: "\<bar>v * of_int n / of_int d\<bar> = \<bar>v * of_int n\<bar> / of_int d"
    using d1 by (simp add: abs_divide)
  have b: "\<bar>v\<bar> \<le> \<bar>v * of_int n\<bar>"
    using n1 mult_left_mono [of 1 "of_int n" "\<bar>v\<bar>"] by (simp add: abs_mult)
  have "(2::rat) powi (- 1021) \<le> 2 powi (- 1013)" unfolding pow2_le_iff by simp
  also have "\<dots> = 2 powi (- 1000) / 2 powi 13" by (simp flip: power_int_diff)
  also have "\<dots> \<le> \<bar>v * of_int n\<bar> / of_int d"
    using assms(1) b d1 d2 by (intro frac_le) simp_all
  finally show "2 powi (- 1021) \<le> \<bar>v * of_int n / of_int d\<bar>" unfolding a .
  have "\<bar>v * of_int n\<bar> / of_int d \<le> \<bar>v * of_int n\<bar> / 1"
    using d1 by (intro frac_le) simp_all
  also have "\<dots> \<le> 2 powi 1022" using range_mul(2) [OF assms(1-4)] by simp
  finally show "\<bar>v * of_int n / of_int d\<bar> \<le> 2 powi 1022" unfolding a .
qed

lemma approx_0: "is_double m \<Longrightarrow> is_finite m \<Longrightarrow> approx 0 m (valof m)"
  by (simp add: approx_def)

lemma range_1000:
  fixes v :: rat
  assumes "1 / 2 \<le> \<bar>v\<bar>" "\<bar>v\<bar> \<le> 8"
  shows "2 powi (- 1000) \<le> \<bar>v\<bar>" "\<bar>v\<bar> \<le> 2 powi 1000"
proof -
  have "(2::rat) powi (- 1000) \<le> 2 powi (- 1)" unfolding pow2_le_iff by simp
  also have "\<dots> = 1 / 2" by simp
  finally show "2 powi (- 1000) \<le> \<bar>v\<bar>" using assms(1) by linarith
  have "(2::rat) powi 3 \<le> 2 powi 1000" unfolding pow2_le_iff by simp
  moreover have "(2::rat) powi 3 = 8" by simp
  ultimately show "\<bar>v\<bar> \<le> 2 powi 1000" using assms(2) by linarith
qed

section \<open>The registry's ratios\<close>

lemma ratio_simps:
  "ratio metre = Ratio 1 1" "ratio centimetre = Ratio 1 100" "ratio millimetre = Ratio 1 1000"
  "ratio inch = Ratio 127 5000" "ratio foot = Ratio 381 1250"
  by code_simp+

lemma ratio_divide_same: "ratio_divide (ratio U) (ratio U) = Ratio 1 1"
  by (cases U; hypsubst; code_simp)

lemma conv_ratio:
  "1 \<le> num (ratio_divide (ratio From) (ratio To))
   \<and> num (ratio_divide (ratio From) (ratio To)) \<le> 5000
   \<and> 1 \<le> den (ratio_divide (ratio From) (ratio To))
   \<and> den (ratio_divide (ratio From) (ratio To)) \<le> 5000
   \<and> coprime (num (ratio_divide (ratio From) (ratio To))) (den (ratio_divide (ratio From) (ratio To)))
   \<and> ratio_value (ratio_divide (ratio From) (ratio To)) = scale From / scale To
   \<and> ratio_divide (ratio To) (ratio From) =
        Ratio (den (ratio_divide (ratio From) (ratio To))) (num (ratio_divide (ratio From) (ratio To)))"
  by (cases From; cases To; hypsubst; code_simp)

lemma conv_ratio_double:
  "is_double (double_of_int (num (ratio_divide (ratio From) (ratio To))))
   \<and> is_finite (double_of_int (num (ratio_divide (ratio From) (ratio To))))
   \<and> valof (double_of_int (num (ratio_divide (ratio From) (ratio To)))) =
       of_int (num (ratio_divide (ratio From) (ratio To)))
   \<and> is_double (double_of_int (den (ratio_divide (ratio From) (ratio To))))
   \<and> is_finite (double_of_int (den (ratio_divide (ratio From) (ratio To))))
   \<and> valof (double_of_int (den (ratio_divide (ratio From) (ratio To)))) =
       of_int (den (ratio_divide (ratio From) (ratio To)))"
  by (cases From; cases To; hypsubst; code_simp)

lemma scale_pos: "0 < scale u"
  by (cases u; hypsubst; code_simp)

lemma scale_ratio:
  "of_int (num (ratio_divide (ratio From) (ratio To))) / of_int (den (ratio_divide (ratio From) (ratio To)))
     * scale To = scale From"
proof -
  from conv_ratio [of From To]
  have "ratio_value (ratio_divide (ratio From) (ratio To)) = scale From / scale To" by simp
  then show ?thesis using scale_pos [of To] by (simp add: ratio_value_def)
qed

text \<open>
  Claim C2. The registry has exactly the five tags metre, centimetre, millimetre, inch and
  foot; their scale factors in metres are the exact rationals 1, 1/100, 1/1000, 254/10000
  and 12 * 254/10000 = 3048/10000, each strictly positive, and each is held as a constant
  numerator and denominator in lowest terms.
\<close>

theorem registry_scales:
  "(UNIV :: length_unit set) = {metre, centimetre, millimetre, inch, foot}
   \<and> scale metre = 1 \<and> scale centimetre = 1 / 100 \<and> scale millimetre = 1 / 1000
   \<and> scale inch = 254 / 10000 \<and> scale foot = 12 * (254 / 10000) \<and> scale foot = 3048 / 10000
   \<and> (\<forall>u. 0 < scale u)
   \<and> (\<forall>u. 0 < den (ratio u) \<and> coprime (num (ratio u)) (den (ratio u)))"
proof -
  have univ: "(UNIV :: length_unit set) = {metre, centimetre, millimetre, inch, foot}"
  proof -
    have "u \<in> {metre, centimetre, millimetre, inch, foot}" for u :: length_unit
      by (cases u) simp_all
    then show ?thesis by blast
  qed
  have pos: "\<forall>u. 0 < scale u"
  proof
    fix u show "0 < scale u"
      by (cases u; hypsubst; code_simp)
  qed
  have red: "\<forall>u. 0 < den (ratio u) \<and> coprime (num (ratio u)) (den (ratio u))"
  proof
    fix u show "0 < den (ratio u) \<and> coprime (num (ratio u)) (den (ratio u))"
      by (cases u; hypsubst; code_simp)
  qed
  have vals: "scale metre = 1" "scale centimetre = 1 / 100" "scale millimetre = 1 / 1000"
    "scale inch = 254 / 10000" "scale foot = 12 * (254 / 10000)" "scale foot = 3048 / 10000"
    by code_simp+
  from univ pos red vals show ?thesis by (intro conjI)
qed

section \<open>Conversion\<close>

lemma convert_unfold:
  "value_of (convert From To (Length From x)) =
     fdiv (fmul x (double_of_int (num (ratio_divide (ratio From) (ratio To)))))
       (double_of_int (den (ratio_divide (ratio From) (ratio To))))"
  by (simp add: convert_def value_of_def Let_def)

lemma convert_approx:
  assumes "approx k x t" "k \<le> 3"
    and "2 powi (- 1000) \<le> \<bar>t\<bar>" "\<bar>t\<bar> \<le> 2 powi 1000"
  shows "approx (Suc (Suc k)) (value_of (convert From To (Length From x)))
           (t * of_int (num (ratio_divide (ratio From) (ratio To)))
              / of_int (den (ratio_divide (ratio From) (ratio To))))"
proof -
  define n where "n = num (ratio_divide (ratio From) (ratio To))"
  define d where "d = den (ratio_divide (ratio From) (ratio To))"
  from conv_ratio [of From To] have nd: "1 \<le> n" "n \<le> 5000" "1 \<le> d" "d \<le> 5000"
    by (simp_all add: n_def d_def)
  from conv_ratio_double [of From To]
  have N: "is_finite (double_of_int n)" "valof (double_of_int n) = of_int n"
    and D: "is_finite (double_of_int d)" "valof (double_of_int d) = of_int d"
    by (simp_all add: n_def d_def)
  have k4: "k \<le> 4" "Suc k \<le> 4" using assms(2) by simp_all
  from fmul_step [OF assms(1) k4(1) N nd(1) range_mul [OF assms(3,4) nd(1,2)]]
  have 1: "approx (Suc k) (fmul x (double_of_int n)) (t * of_int n)" .
  from fdiv_step [OF 1 k4(2) D nd(3) range_mul_div [OF assms(3,4) nd]]
  have "approx (Suc (Suc k)) (fdiv (fmul x (double_of_int n)) (double_of_int d))
          (t * of_int n / of_int d)" .
  then show ?thesis by (simp only: convert_unfold n_def d_def)
qed

lemma convert_Length: "convert From To l = Length To (value_of (convert From To l))"
  by (simp add: convert_def Let_def value_of_def)

lemma convert_exact:
  assumes "is_finite x"
    and "exact (valof x * of_int (num (ratio_divide (ratio From) (ratio To))))"
    and "exact (valof x * of_int (num (ratio_divide (ratio From) (ratio To)))
                 / of_int (den (ratio_divide (ratio From) (ratio To))))"
  shows "is_finite (value_of (convert From To (Length From x)))"
    "valof (value_of (convert From To (Length From x))) =
       valof x * of_int (num (ratio_divide (ratio From) (ratio To)))
         / of_int (den (ratio_divide (ratio From) (ratio To)))"
proof -
  define n where "n = num (ratio_divide (ratio From) (ratio To))"
  define d where "d = den (ratio_divide (ratio From) (ratio To))"
  from conv_ratio [of From To] have nd: "1 \<le> n" "1 \<le> d"
    by (simp_all add: n_def d_def)
  from conv_ratio_double [of From To]
  have N: "is_finite (double_of_int n)" "valof (double_of_int n) = of_int n"
    and D: "is_finite (double_of_int d)" "valof (double_of_int d) = of_int d"
    by (simp_all add: n_def d_def)
  note 1 = fmul_exact [OF assms(1) N assms(2) [folded n_def]]
  have "exact (valof (fmul x (double_of_int n)) / of_int d)"
    unfolding 1(2) unfolding n_def d_def by (rule assms(3))
  note 2 = fdiv_exact [OF 1(1) D nd(2) this]
  show "is_finite (value_of (convert From To (Length From x)))"
    unfolding convert_unfold using 2(1) unfolding n_def d_def .
  show "valof (value_of (convert From To (Length From x))) =
       valof x * of_int (num (ratio_divide (ratio From) (ratio To)))
         / of_int (den (ratio_divide (ratio From) (ratio To)))"
    unfolding convert_unfold using 2(2) [unfolded 1(2)] unfolding n_def d_def .
qed

lemma literal_7: "literal 7 = Finite False 7881299347898368 (- 50)"
  by code_simp

text \<open>
  Claim C1, as the code has it. For all units \<open>From\<close>, \<open>To\<close> and every double \<open>m\<close>,
  \<^verbatim>\<open>convert<From, To>(Length<From>{m})\<close> is the \<^verbatim>\<open>Length<To>\<close> whose magnitude
  is \<open>m\<close> multiplied by the numerator and then divided by the denominator of the ratio
  \<open>From.scale / To.scale\<close>; that ratio is formed in exact rational arithmetic, in lowest
  terms, and its numerator and denominator are converted to doubles without error. The
  multiplication and the division each round once. When both results are exactly
  representable the result equals the input in metres, and for a double between
  \<open>2\<^sup>-\<^sup>1\<^sup>0\<^sup>0\<^sup>0\<close> and \<open>2\<^sup>1\<^sup>0\<^sup>0\<^sup>0\<close> in magnitude the two differ, in metres, by
  a relative error of at most \<open>(1 + 2\<^sup>-\<^sup>5\<^sup>3)\<^sup>2 - 1\<close>, the error of two roundings.
\<close>

theorem convert_magnitude:
  fixes From To :: length_unit and m :: double
  defines "r \<equiv> ratio_divide (ratio From) (ratio To)"
  defines "y \<equiv> value_of (convert From To (Length From m))"
  shows "convert From To (Length From m) =
           Length To (fdiv (fmul m (double_of_int (num r))) (double_of_int (den r)))
     \<and> is_double y
     \<and> 0 < den r \<and> coprime (num r) (den r) \<and> ratio_value r = scale From / scale To
     \<and> valof (double_of_int (num r)) = of_int (num r)
     \<and> valof (double_of_int (den r)) = of_int (den r)
     \<and> (is_finite m \<and> exact (valof m * of_int (num r))
          \<and> exact (valof m * of_int (num r) / of_int (den r))
        \<longrightarrow> is_finite y \<and> valof y * scale To = valof m * scale From)
     \<and> (is_double m \<and> is_finite m \<and> 2 powi (- 1000) \<le> \<bar>valof m\<bar> \<and> \<bar>valof m\<bar> \<le> 2 powi 1000
        \<longrightarrow> is_finite y
            \<and> \<bar>valof y * scale To - valof m * scale From\<bar>
                 \<le> ((1 + 1 / 2 ^ 53)\<^sup>2 - 1) * \<bar>valof m * scale From\<bar>)"
proof -
  have 1: "convert From To (Length From m) =
           Length To (fdiv (fmul m (double_of_int (num r))) (double_of_int (den r)))"
    by (simp add: convert_def Let_def value_of_def r_def)
  from conv_ratio [of From To]
  have 2: "0 < den r" "coprime (num r) (den r)" "ratio_value r = scale From / scale To"
    by (simp_all add: r_def)
  from conv_ratio_double [of From To]
  have 3: "valof (double_of_int (num r)) = of_int (num r)"
    "valof (double_of_int (den r)) = of_int (den r)"
    by (simp_all add: r_def)
  have sc: "of_int (num r) / of_int (den r) * scale To = scale From"
    unfolding r_def by (rule scale_ratio)
  have 4: "is_finite m \<and> exact (valof m * of_int (num r))
          \<and> exact (valof m * of_int (num r) / of_int (den r))
        \<longrightarrow> is_finite y \<and> valof y * scale To = valof m * scale From"
  proof (intro impI conjI; elim conjE)
    assume a: "is_finite m" "exact (valof m * of_int (num r))"
      "exact (valof m * of_int (num r) / of_int (den r))"
    note c = convert_exact [OF a [unfolded r_def], folded r_def y_def]
    show "is_finite y" by (rule c(1))
    have "valof y * scale To = valof m * (of_int (num r) / of_int (den r) * scale To)"
      by (simp add: c(2))
    then show "valof y * scale To = valof m * scale From" by (simp only: sc)
  qed
  have 5: "is_double m \<and> is_finite m \<and> 2 powi (- 1000) \<le> \<bar>valof m\<bar> \<and> \<bar>valof m\<bar> \<le> 2 powi 1000
        \<longrightarrow> is_finite y
            \<and> \<bar>valof y * scale To - valof m * scale From\<bar>
                 \<le> ((1 + 1 / 2 ^ 53)\<^sup>2 - 1) * \<bar>valof m * scale From\<bar>"
  proof (intro impI conjI; elim conjE)
    assume a: "is_double m" "is_finite m" "2 powi (- 1000) \<le> \<bar>valof m\<bar>" "\<bar>valof m\<bar> \<le> 2 powi 1000"
    have "approx 2 y (valof m * of_int (num r) / of_int (den r))"
      using convert_approx [OF approx_0 [OF a(1,2)] _ a(3,4), of From To]
      by (simp add: r_def y_def numeral_2_eq_2)
    then have f: "is_finite y"
      and b: "\<bar>valof y - valof m * of_int (num r) / of_int (den r)\<bar>
           \<le> ((1 + 1 / 2 ^ 53)\<^sup>2 - 1) * \<bar>valof m * of_int (num r) / of_int (den r)\<bar>"
      by (simp_all add: approx_def unit_roundoff_def)
    show "is_finite y" by (rule f)
    define t where "t = valof m * of_int (num r) / of_int (den r)"
    have "t * scale To = valof m * (of_int (num r) / of_int (den r) * scale To)"
      by (simp add: t_def)
    then have ts: "t * scale To = valof m * scale From" by (simp only: sc)
    have sp: "0 < scale To" by (rule scale_pos)
    have "\<bar>valof y * scale To - t * scale To\<bar> = \<bar>valof y - t\<bar> * scale To"
      using sp by (simp add: abs_mult flip: left_diff_distrib)
    also have "\<dots> \<le> (((1 + 1 / 2 ^ 53)\<^sup>2 - 1) * \<bar>t\<bar>) * scale To"
      using b sp unfolding t_def by (intro mult_right_mono) simp_all
    also have "\<dots> = ((1 + 1 / 2 ^ 53)\<^sup>2 - 1) * \<bar>t * scale To\<bar>"
      using sp by (simp add: abs_mult)
    finally show "\<bar>valof y * scale To - valof m * scale From\<bar>
                 \<le> ((1 + 1 / 2 ^ 53)\<^sup>2 - 1) * \<bar>valof m * scale From\<bar>"
      unfolding ts .
  qed
  have 6: "is_double y" unfolding y_def convert_unfold by (rule fdiv_is_double)
  from 1 6 2 3 4 5 show ?thesis by (intro conjI)
qed

theorem convert_magnitude_witness:
  "(is_finite (literal 250)
      \<and> exact (valof (literal 250) * of_int (num (ratio_divide (ratio centimetre) (ratio metre))))
      \<and> exact (valof (literal 250) * of_int (num (ratio_divide (ratio centimetre) (ratio metre)))
                 / of_int (den (ratio_divide (ratio centimetre) (ratio metre)))))
   \<and> convert centimetre metre (Length centimetre (literal 250)) = Length metre (literal (5 / 2))
   \<and> valof (literal (5 / 2)) * scale metre = valof (literal 250) * scale centimetre
   \<and> (is_double (literal (7 / 10)) \<and> is_finite (literal (7 / 10))
      \<and> 2 powi (- 1000) \<le> \<bar>valof (literal (7 / 10))\<bar>
      \<and> \<bar>valof (literal (7 / 10))\<bar> \<le> 2 powi 1000)
   \<and> \<bar>valof (value_of (convert metre inch (Length metre (literal (7 / 10))))) * scale inch
        - valof (literal (7 / 10)) * scale metre\<bar>
       \<le> ((1 + 1 / 2 ^ 53)\<^sup>2 - 1) * \<bar>valof (literal (7 / 10)) * scale metre\<bar>"
proof -
  have h1: "is_finite (literal 250)
      \<and> exact (valof (literal 250) * of_int (num (ratio_divide (ratio centimetre) (ratio metre))))
      \<and> exact (valof (literal 250) * of_int (num (ratio_divide (ratio centimetre) (ratio metre)))
                 / of_int (den (ratio_divide (ratio centimetre) (ratio metre))))"
    by code_simp
  have ev: "convert centimetre metre (Length centimetre (literal 250)) = Length metre (literal (5 / 2))"
    by code_simp
  have b: "1 / 2 \<le> \<bar>valof (literal (7 / 10))\<bar>" "\<bar>valof (literal (7 / 10))\<bar> \<le> 8"
    by code_simp+
  have d: "is_double (literal (7 / 10))" "is_finite (literal (7 / 10))" by code_simp+
  note h2 = d range_1000 [OF b]
  from convert_magnitude [where From = centimetre and To = metre and m = "literal 250"] h1
  have c1: "valof (value_of (convert centimetre metre (Length centimetre (literal 250)))) * scale metre
      = valof (literal 250) * scale centimetre" by blast
  have c1': "valof (literal (5 / 2)) * scale metre = valof (literal 250) * scale centimetre"
    using c1 unfolding ev by (simp only: value_of_def Length.sel)
  from convert_magnitude [where From = metre and To = inch and m = "literal (7 / 10)"] h2
  have c2: "\<bar>valof (value_of (convert metre inch (Length metre (literal (7 / 10))))) * scale inch
        - valof (literal (7 / 10)) * scale metre\<bar>
       \<le> ((1 + 1 / 2 ^ 53)\<^sup>2 - 1) * \<bar>valof (literal (7 / 10)) * scale metre\<bar>" by blast
  from h1 ev c1' h2 c2 show ?thesis by (intro conjI) blast+
qed

lemma scale_metre_inch: "scale metre / scale inch = 5000 / 127"
  by code_simp

text \<open>
  The result is not the input up to one rounding for every double. 17.1 m in inches is
  \<open>5921779160620346 * 2\<^sup>-\<^sup>4\<^sup>3\<close>, one unit in the last place below the exact
  quotient rounded once, and its relative error exceeds \<open>2\<^sup>-\<^sup>5\<^sup>3\<close>. The double
  nearest \<open>10\<^sup>3\<^sup>0\<^sup>5\<close>, in metres, becomes infinity, because the multiplication by
  5000 overflows, although the exact quotient is within a rounding of a finite double.
\<close>

theorem convert_counterexample:
  "is_double (literal (171 / 10)) \<and> is_finite (literal (171 / 10))
   \<and> value_of (convert metre inch (Length metre (literal (171 / 10))))
       = Finite False 5921779160620346 (- 43)
   \<and> fround False (valof (literal (171 / 10)) * (scale metre / scale inch))
       = Finite False 5921779160620347 (- 43)
   \<and> 1 / 2 ^ 53 * \<bar>valof (literal (171 / 10)) * scale metre\<bar>
       < \<bar>valof (value_of (convert metre inch (Length metre (literal (171 / 10))))) * scale inch
          - valof (literal (171 / 10)) * scale metre\<bar>
   \<and> is_double (Finite False 5130671001622970 961)
   \<and> is_finite (Finite False 5130671001622970 961)
   \<and> value_of (convert metre inch (Length metre (Finite False 5130671001622970 961)))
       = Infinity False
   \<and> fround False (valof (Finite False 5130671001622970 961) * (scale metre / scale inch))
       = Finite False 6312341291366843 966"
proof -
  have 1: "is_double (literal (171 / 10))" "is_finite (literal (171 / 10))" by code_simp+
  have 2: "value_of (convert metre inch (Length metre (literal (171 / 10))))
       = Finite False 5921779160620346 (- 43)" by code_simp
  have 3: "fround False (valof (literal (171 / 10)) * (scale metre / scale inch))
       = Finite False 5921779160620347 (- 43)" by code_simp
  have 4: "1 / 2 ^ 53 * \<bar>valof (literal (171 / 10)) * scale metre\<bar>
       < \<bar>valof (value_of (convert metre inch (Length metre (literal (171 / 10))))) * scale inch
          - valof (literal (171 / 10)) * scale metre\<bar>" by code_simp
  have 5: "is_double (Finite False 5130671001622970 961)"
    "is_finite (Finite False 5130671001622970 961)" by simp_all
  have r: "ratio_divide (ratio metre) (ratio inch) = Ratio 5000 127" by code_simp
  have c: "double_of_int 5000 = Finite False 5497558138880000 (- 40)" by code_simp
  have d: "double_of_int 127 = Finite False 8936830510563328 (- 46)" by code_simp
  have "(2::rat) powi 1024 = 2 powi 63 * 2 powi 961" by (simp flip: power_int_add)
  also have "\<dots> \<le> 5130671001622970 * 5000 * 2 powi 961"
    by (intro mult_right_mono) simp_all
  finally have big: "(2::rat) powi 1024 \<le> \<bar>5130671001622970 * 5000 * 2 powi 961\<bar>" by simp
  have v: "valof (Finite False 5130671001622970 961) * valof (Finite False 5497558138880000 (- 40))
      = 5130671001622970 * 5000 * 2 powi 961"
    by simp
  have o: "fmul (Finite False 5130671001622970 961) (double_of_int 5000) = Infinity False"
    unfolding c fmul.simps v using fround_overflow [OF big, of False] by simp
  have 6: "value_of (convert metre inch (Length metre (Finite False 5130671001622970 961)))
       = Infinity False"
    by (simp only: convert_unfold r std_ratio.sel o, simp add: d)
  define q :: rat where "q = 5130671001622970 * 5000 / 127 * 2 powi 961"
  have qv: "valof (Finite False 5130671001622970 961) * (scale metre / scale inch) = q"
    unfolding scale_metre_inch q_def by simp
  have qpos: "0 < q" unfolding q_def by simp
  have "(2::rat) powi 1018 = 2 powi 57 * 2 powi 961" by (simp flip: power_int_add)
  also have "\<dots> \<le> 5130671001622970 * 5000 / 127 * 2 powi 961"
    by (intro mult_right_mono) simp_all
  finally have lo: "2 powi 1018 \<le> q" unfolding q_def .
  have "5130671001622970 * 5000 / 127 * (2::rat) powi 961 < 2 powi 58 * 2 powi 961"
    by (intro mult_strict_right_mono) simp_all
  also have "\<dots> = 2 powi (1018 + 1)" by (simp flip: power_int_add)
  finally have hi: "q < 2 powi (1018 + 1)" unfolding q_def .
  have ex: "fexp q = 966" using fexp_normal [OF lo hi] by simp
  have "q / 2 powi 966 = 5130671001622970 * 5000 / 127 * (2 powi 961 / 2 powi 966)"
    unfolding q_def by simp
  also have "(2::rat) powi 961 / 2 powi 966 = 2 powi (961 - 966)"
    by (rule power_int_diff [symmetric]) simp
  finally have qd: "q / 2 powi 966 = 5130671001622970 * 5000 / 127 / 32" by simp
  have sg: "fsig q = 6312341291366843"
    unfolding fsig_def ex qd by code_simp
  have 7: "fround False (valof (Finite False 5130671001622970 961) * (scale metre / scale inch))
       = Finite False 6312341291366843 966"
    unfolding qv using qpos by (simp add: fround_def ex sg fpack_def)
  from 1 2 3 4 5 6 7 show ?thesis by (intro conjI)
qed

section \<open>Round trips\<close>

lemma roundtrip_approx:
  assumes "is_double m" "is_finite m" "2 powi (- 1000) \<le> \<bar>valof m\<bar>" "\<bar>valof m\<bar> \<le> 2 powi 1000"
  shows "approx 4 (value_of (convert B A (convert A B (Length A m)))) (valof m)"
proof -
  define n where "n = num (ratio_divide (ratio A) (ratio B))"
  define d where "d = den (ratio_divide (ratio A) (ratio B))"
  from conv_ratio [of A B] have nd: "1 \<le> n" "n \<le> 5000" "1 \<le> d" "d \<le> 5000"
    and inv: "ratio_divide (ratio B) (ratio A) = Ratio d n"
    by (simp_all add: n_def d_def)
  from conv_ratio_double [of A B]
  have N: "is_finite (double_of_int n)" "valof (double_of_int n) = of_int n"
    and D: "is_finite (double_of_int d)" "valof (double_of_int d) = of_int d"
    by (simp_all add: n_def d_def)
  define v where "v = valof m"
  have nz: "(of_int n :: rat) \<noteq> 0" "(of_int d :: rat) \<noteq> 0" using nd by simp_all
  have e3: "v * of_int n / of_int d * of_int d = v * of_int n" using nz by simp
  have e4: "v * of_int n / of_int d * of_int d / of_int n = v" using nz by simp
  have r0: "2 powi (- 1000) \<le> \<bar>v\<bar>" "\<bar>v\<bar> \<le> 2 powi 1000" using assms(3,4) by (simp_all add: v_def)
  note r1 = range_mul [OF r0 nd(1,2)]
  note r2 = range_mul_div [OF r0 nd]
  have r3: "2 powi (- 1021) \<le> \<bar>v * of_int n / of_int d * of_int d\<bar>"
    "\<bar>v * of_int n / of_int d * of_int d\<bar> \<le> 2 powi 1022"
    unfolding e3 by (rule r1)+
  have "(2::rat) powi (- 1021) \<le> 2 powi (- 1000)" "(2::rat) powi 1000 \<le> 2 powi 1022"
    unfolding pow2_le_iff by simp_all
  with r0 have r4: "2 powi (- 1021) \<le> \<bar>v * of_int n / of_int d * of_int d / of_int n\<bar>"
    "\<bar>v * of_int n / of_int d * of_int d / of_int n\<bar> \<le> 2 powi 1022"
    unfolding e4 by linarith+
  have a0: "approx 0 m v" unfolding v_def by (rule approx_0 [OF assms(1,2)])
  note a1 = fmul_step [OF a0 _ N nd(1) r1]
  have a1': "approx 1 (fmul m (double_of_int n)) (v * of_int n)" using a1 by simp
  note a2 = fdiv_step [OF a1' _ D nd(3) r2]
  have a2': "approx 2 (fdiv (fmul m (double_of_int n)) (double_of_int d)) (v * of_int n / of_int d)"
    using a2 by (simp add: numeral_2_eq_2)
  note a3 = fmul_step [OF a2' _ D nd(3) r3]
  have a3': "approx 3 (fmul (fdiv (fmul m (double_of_int n)) (double_of_int d)) (double_of_int d))
      (v * of_int n / of_int d * of_int d)"
    using a3 by (simp add: numeral_3_eq_3)
  note a4 = fdiv_step [OF a3' _ N nd(1) r4]
  have a4': "approx 4 (fdiv (fmul (fdiv (fmul m (double_of_int n)) (double_of_int d)) (double_of_int d))
      (double_of_int n)) v"
    using a4 unfolding e4 by (simp add: eval_nat_numeral)
  have "value_of (convert B A (convert A B (Length A m))) =
      fdiv (fmul (fdiv (fmul m (double_of_int n)) (double_of_int d)) (double_of_int d)) (double_of_int n)"
    by (subst convert_Length [of A B]) (simp add: convert_unfold inv n_def d_def)
  with a4' show ?thesis by (simp add: v_def)
qed


lemma roundtrip_exact:
  assumes "is_double m" "is_finite m"
    and "exact (valof m * of_int (num (ratio_divide (ratio A) (ratio B))))"
    and "exact (valof m * of_int (num (ratio_divide (ratio A) (ratio B)))
                 / of_int (den (ratio_divide (ratio A) (ratio B))))"
  shows "value_of (convert B A (convert A B (Length A m))) = m"
proof -
  define n where "n = num (ratio_divide (ratio A) (ratio B))"
  define d where "d = den (ratio_divide (ratio A) (ratio B))"
  from conv_ratio [of A B] have nd: "1 \<le> n" "1 \<le> d"
    and inv: "ratio_divide (ratio B) (ratio A) = Ratio d n"
    by (simp_all add: n_def d_def)
  from conv_ratio_double [of A B]
  have N: "is_double (double_of_int n)" "is_finite (double_of_int n)"
      "valof (double_of_int n) = of_int n"
    and D: "is_double (double_of_int d)" "is_finite (double_of_int d)"
      "valof (double_of_int d) = of_int d"
    by (simp_all add: n_def d_def)
  have nz: "(of_int n :: rat) \<noteq> 0" "(of_int d :: rat) \<noteq> 0" using nd by simp_all
  define x1 where "x1 = fmul m (double_of_int n)"
  define x2 where "x2 = fdiv x1 (double_of_int d)"
  define x3 where "x3 = fmul x2 (double_of_int d)"
  have y: "value_of (convert B A (convert A B (Length A m))) = fdiv x3 (double_of_int n)"
    by (subst convert_Length [of A B])
      (simp add: convert_unfold inv n_def d_def x1_def x2_def x3_def)
  from assms(2) obtain s k e where m: "m = Finite s k e" by (cases m) simp_all
  show ?thesis
  proof (cases "k = 0")
    case True
    with assms(1) have e: "e = - 1074" by (simp add: m)
    have "x1 = Finite s 0 (- 1074)" unfolding x1_def m True by (rule fmul_zero [OF N nd(1)])
    then have "x2 = Finite s 0 (- 1074)" unfolding x2_def by (simp only: fdiv_zero [OF D nd(2)])
    then have "x3 = Finite s 0 (- 1074)" unfolding x3_def by (simp only: fmul_zero [OF D nd(2)])
    then have "fdiv x3 (double_of_int n) = Finite s 0 (- 1074)"
      by (simp only: fdiv_zero [OF N nd(1)])
    then show ?thesis unfolding y by (simp only: m True e)
  next
    case False
    have vnz: "valof m \<noteq> 0" using False by (simp add: m)
    note 1 = fmul_exact [OF assms(2) N(2,3) assms(3) [folded n_def], folded x1_def]
    have "exact (valof x1 / of_int d)" unfolding 1(2) unfolding n_def d_def by (rule assms(4))
    note 2 = fdiv_exact [OF 1(1) D(2,3) nd(2) this, folded x2_def]
    have v3: "valof x2 * of_int d = valof m * of_int n" unfolding 2(2) 1(2) using nz by simp
    have "exact (valof x2 * of_int d)" unfolding v3 unfolding n_def by (rule assms(3))
    note 3 = fmul_exact [OF 2(1) D(2,3) this, folded x3_def]
    from fdiv_fround [OF 3(1) N(2,3) nd(1)]
    obtain z where "fdiv x3 (double_of_int n) = fround z (valof x3 / of_int n)" ..
    also have "valof x3 / of_int n = valof m" unfolding 3(2) v3 using nz by simp
    also have "fround z (valof m) = m" by (rule fround_valof_any [OF assms(1,2) vnz])
    finally show ?thesis by (simp only: y)
  qed
qed

text \<open>
  Claim C6, as the code has it. For all units \<open>A\<close>, \<open>B\<close> and every finite double
  \<open>m\<close> between \<open>2\<^sup>-\<^sup>1\<^sup>0\<^sup>0\<^sup>0\<close> and \<open>2\<^sup>1\<^sup>0\<^sup>0\<^sup>0\<close> in magnitude, converting
  \<open>m\<close> from \<open>A\<close> to \<open>B\<close> and back gives a finite double within the relative error
  \<open>(1 + 2\<^sup>-\<^sup>5\<^sup>3)\<^sup>4 - 1\<close> of \<open>m\<close>; and for every finite double \<open>m\<close> the round
  trip returns \<open>m\<close> itself whenever the product and the quotient of the forward
  conversion are exactly representable.
\<close>

theorem roundtrip_convert:
  fixes A B :: length_unit and m :: double
  defines "r \<equiv> ratio_divide (ratio A) (ratio B)"
  defines "y \<equiv> value_of (convert B A (convert A B (Length A m)))"
  shows "(is_double m \<and> is_finite m \<and> 2 powi (- 1000) \<le> \<bar>valof m\<bar> \<and> \<bar>valof m\<bar> \<le> 2 powi 1000
        \<longrightarrow> is_double y \<and> is_finite y
            \<and> \<bar>valof y - valof m\<bar> \<le> ((1 + 1 / 2 ^ 53) ^ 4 - 1) * \<bar>valof m\<bar>)
     \<and> (is_double m \<and> is_finite m \<and> exact (valof m * of_int (num r))
          \<and> exact (valof m * of_int (num r) / of_int (den r))
        \<longrightarrow> y = m)"
proof (intro conjI impI; elim conjE)
  assume a: "is_double m" "is_finite m" "2 powi (- 1000) \<le> \<bar>valof m\<bar>" "\<bar>valof m\<bar> \<le> 2 powi 1000"
  from roundtrip_approx [OF a, of B A] have "approx 4 y (valof m)" by (simp only: y_def)
  then show "is_double y" "is_finite y"
    "\<bar>valof y - valof m\<bar> \<le> ((1 + 1 / 2 ^ 53) ^ 4 - 1) * \<bar>valof m\<bar>"
    by (simp_all add: approx_def unit_roundoff_def)
next
  assume a: "is_double m" "is_finite m" "exact (valof m * of_int (num r))"
    "exact (valof m * of_int (num r) / of_int (den r))"
  from roundtrip_exact [OF a [unfolded r_def]] show "y = m" by (simp only: y_def)
qed

theorem roundtrip_convert_witness:
  "(is_double (literal 7) \<and> is_finite (literal 7)
      \<and> 2 powi (- 1000) \<le> \<bar>valof (literal 7)\<bar> \<and> \<bar>valof (literal 7)\<bar> \<le> 2 powi 1000)
   \<and> \<bar>valof (value_of (convert metre centimetre
          (convert centimetre metre (Length centimetre (literal 7))))) - valof (literal 7)\<bar>
       \<le> ((1 + 1 / 2 ^ 53) ^ 4 - 1) * \<bar>valof (literal 7)\<bar>
   \<and> (is_double (literal (5 / 2)) \<and> is_finite (literal (5 / 2))
      \<and> exact (valof (literal (5 / 2)) * of_int (num (ratio_divide (ratio metre) (ratio centimetre))))
      \<and> exact (valof (literal (5 / 2)) * of_int (num (ratio_divide (ratio metre) (ratio centimetre)))
                 / of_int (den (ratio_divide (ratio metre) (ratio centimetre)))))
   \<and> value_of (convert centimetre metre (convert metre centimetre (Length metre (literal (5 / 2)))))
       = literal (5 / 2)"
proof -
  have b: "1 / 2 \<le> \<bar>valof (literal 7)\<bar>" "\<bar>valof (literal 7)\<bar> \<le> 8"
    by (simp_all add: literal_7)
  have d: "is_double (literal 7)" "is_finite (literal 7)" by (simp_all add: literal_7)
  note h1 = d range_1000 [OF b]
  have h2: "is_double (literal (5 / 2)) \<and> is_finite (literal (5 / 2))
      \<and> exact (valof (literal (5 / 2)) * of_int (num (ratio_divide (ratio metre) (ratio centimetre))))
      \<and> exact (valof (literal (5 / 2)) * of_int (num (ratio_divide (ratio metre) (ratio centimetre)))
                 / of_int (den (ratio_divide (ratio metre) (ratio centimetre))))"
    by code_simp
  from roundtrip_convert [where A = centimetre and B = metre and m = "literal 7"] h1
  have c1: "\<bar>valof (value_of (convert metre centimetre
          (convert centimetre metre (Length centimetre (literal 7))))) - valof (literal 7)\<bar>
       \<le> ((1 + 1 / 2 ^ 53) ^ 4 - 1) * \<bar>valof (literal 7)\<bar>" by blast
  from roundtrip_convert [where A = metre and B = centimetre and m = "literal (5 / 2)"] h2
  have c2: "value_of (convert centimetre metre (convert metre centimetre (Length metre (literal (5 / 2)))))
       = literal (5 / 2)" by blast
  from h1 c1 h2 c2 show ?thesis by (intro conjI) blast+
qed

text \<open>
  The round trip is not exact for every magnitude, even when the ratio is a power of ten:
  7 cm converted to metres and back is \<open>7 + 2\<^sup>-\<^sup>5\<^sup>0\<close> cm. It is not within any
  tolerance for every finite magnitude either: the largest finite double, in metres,
  overflows on the way to centimetres and comes back as infinity.
\<close>

theorem roundtrip_counterexample:
  "is_double (literal 7) \<and> is_finite (literal 7)
   \<and> ratio_divide (ratio centimetre) (ratio metre) = Ratio 1 100
   \<and> value_of (convert metre centimetre (convert centimetre metre (Length centimetre (literal 7))))
       = Finite False 7881299347898369 (- 50)
   \<and> \<not> feq (value_of (convert metre centimetre
                (convert centimetre metre (Length centimetre (literal 7))))) (literal 7)
   \<and> is_double (Finite False 9007199254740991 971) \<and> is_finite (Finite False 9007199254740991 971)
   \<and> value_of (convert centimetre metre
         (convert metre centimetre (Length metre (Finite False 9007199254740991 971))))
       = Infinity False"
proof -
  have 1: "is_double (literal 7)" "is_finite (literal 7)" by (simp_all add: literal_7)
  have 2: "ratio_divide (ratio centimetre) (ratio metre) = Ratio 1 100" by code_simp
  have 3: "value_of (convert metre centimetre (convert centimetre metre (Length centimetre (literal 7))))
       = Finite False 7881299347898369 (- 50)" by code_simp
  have 4: "\<not> feq (value_of (convert metre centimetre
                (convert centimetre metre (Length centimetre (literal 7))))) (literal 7)"
    using 3 by (simp add: literal_7)
  have 5: "is_double (Finite False 9007199254740991 971)" "is_finite (Finite False 9007199254740991 971)"
    by simp_all
  have r: "ratio_divide (ratio metre) (ratio centimetre) = Ratio 100 1" by code_simp
  have c: "double_of_int 100 = Finite False 7036874417766400 (- 46)" by code_simp
  have "(2::rat) powi 1024 = 2 powi 53 * 2 powi 971" by (simp flip: power_int_add)
  also have "\<dots> \<le> 9007199254740991 * 100 * 2 powi 971"
    by (intro mult_right_mono) simp_all
  finally have big: "(2::rat) powi 1024 \<le> \<bar>9007199254740991 * 100 * 2 powi 971\<bar>" by simp
  have v: "valof (Finite False 9007199254740991 971) * valof (Finite False 7036874417766400 (- 46))
      = 9007199254740991 * 100 * 2 powi 971"
    by simp
  have o: "fmul (Finite False 9007199254740991 971) (double_of_int 100) = Infinity False"
    unfolding c fmul.simps v using fround_overflow [OF big, of False] by simp
  have 6: "value_of (convert centimetre metre
         (convert metre centimetre (Length metre (Finite False 9007199254740991 971))))
       = Infinity False"
    by (subst convert_Length [of metre centimetre])
      (simp only: convert_unfold r 2 std_ratio.sel o, simp add: double_of_int_1 c)
  from 1 2 3 4 5 6 show ?thesis by (intro conjI)
qed

section \<open>Conversion within one unit\<close>

lemma convert_same:
  assumes "is_double b"
  shows "convert U U (Length U b) = Length U b"
  by (simp add: convert_def ratio_divide_same value_of_def fmul_1 fdiv_1 assms)

lemma literal_0: "literal 0 = Finite False 0 (- 1074)"
  by (simp add: literal_def fround_def)

lemma literal_1: "literal 1 = Finite False (2 ^ 52) (- 52)"
  by code_simp

section \<open>Equality\<close>

text \<open>
  Claim C3. For all units \<open>U1\<close>, \<open>U2\<close> and all doubles \<open>a\<close>, \<open>b\<close>,
  \<^verbatim>\<open>Length<U1>{a} == Length<U2>{b}\<close> is true if and only if \<open>a\<close> is equal, by the
  exact comparison of doubles, to the value of \<^verbatim>\<open>convert<U2, U1>(Length<U2>{b})\<close>;
  when \<open>U1\<close> and \<open>U2\<close> are the same unit the operator compares \<open>a\<close> and \<open>b\<close>
  directly.
\<close>

theorem eq_iff_converted:
  assumes "is_double b"
  shows "op_eq (Length U1 a) (Length U2 b) = feq a (value_of (convert U2 U1 (Length U2 b)))
     \<and> (U1 = U2 \<longrightarrow> op_eq (Length U1 a) (Length U2 b) = feq a b)"
  using assms by (simp add: op_eq_def op_eq_converted_def convert_same value_of_def)

theorem eq_iff_converted_witness:
  "is_double (literal 100)
   \<and> op_eq (Length metre (literal 1)) (Length centimetre (literal 100))
   \<and> feq (literal 1) (value_of (convert centimetre metre (Length centimetre (literal 100))))
   \<and> is_double (literal 1)
   \<and> op_eq (Length metre (literal 1)) (Length metre (literal 1))
   \<and> feq (literal 1) (literal 1)"
proof -
  have h: "is_double (literal 100)" by code_simp
  have e: "op_eq (Length metre (literal 1)) (Length centimetre (literal 100))" by code_simp
  have h1: "is_double (literal 1)" by code_simp
  have e1: "feq (literal 1) (literal 1)" by code_simp
  from h e h1 e1 eq_iff_converted [OF h, of metre "literal 1" centimetre]
    eq_iff_converted [OF h1, of metre "literal 1" metre]
  show ?thesis by blast
qed

text \<open>
  Claim C10. Within one unit, equality is reflexive exactly on the magnitudes that are not
  NaN: \<^verbatim>\<open>Length<U>{m} == Length<U>{m}\<close> is true for every finite or infinite \<open>m\<close>,
  the two zeros included, and false when \<open>m\<close> is a NaN.
\<close>

theorem eq_reflexive_non_nan:
  "op_eq (Length U m) (Length U m) = (\<not> is_nan m)"
  by (cases m) (simp_all add: op_eq_def value_of_def)

section \<open>Addition and subtraction\<close>

text \<open>
  Claim C4. For all units \<open>U1\<close>, \<open>U2\<close> and all doubles \<open>a\<close>, \<open>b\<close>, the sum of
  \<^verbatim>\<open>Length<U1>{a}\<close> and \<^verbatim>\<open>Length<U2>{b}\<close> is a length in the left operand's unit
  \<open>U1\<close> whose value is \<open>a\<close> plus the value of \<^verbatim>\<open>convert<U2, U1>(Length<U2>{b})\<close>,
  and their difference is a length in \<open>U1\<close> whose value is \<open>a\<close> minus that value.
\<close>

theorem plus_minus_left_unit:
  assumes "is_double b"
  shows "op_plus (Length U1 a) (Length U2 b) =
           Length U1 (fadd a (value_of (convert U2 U1 (Length U2 b))))
     \<and> op_minus (Length U1 a) (Length U2 b) =
           Length U1 (fsub a (value_of (convert U2 U1 (Length U2 b))))"
  using assms
  by (simp add: op_plus_def op_plus_same_def op_plus_units_def op_minus_def op_minus_same_def
      op_minus_units_def convert_same value_of_def)

theorem plus_minus_left_unit_witness:
  "is_double (literal 50)
   \<and> op_plus (Length millimetre (literal 200)) (Length centimetre (literal 50)) =
        Length millimetre (literal 700)
   \<and> op_minus (Length millimetre (literal 200)) (Length centimetre (literal 50)) =
        Length millimetre (fneg (literal 300))
   \<and> op_plus (Length centimetre (literal 20)) (Length centimetre (literal 50)) =
        Length centimetre (fadd (literal 20)
          (value_of (convert centimetre centimetre (Length centimetre (literal 50)))))"
proof -
  have h: "is_double (literal 50)" by code_simp
  have c: "value_of (convert centimetre millimetre (Length centimetre (literal 50))) = literal 500"
    by code_simp
  have p: "fadd (literal 200) (literal 500) = literal 700" by code_simp
  have m: "fsub (literal 200) (literal 500) = fneg (literal 300)" by code_simp
  from h plus_minus_left_unit [OF h, of millimetre "literal 200" centimetre]
    plus_minus_left_unit [OF h, of centimetre "literal 20" centimetre]
  show ?thesis by (simp only: c p m)
qed

text \<open>
  Claim C5. For every unit \<open>U\<close> and all doubles \<open>a\<close>, \<open>b\<close>, the paths taken when both
  operands have the unit \<open>U\<close> (the direct comparison in \<^verbatim>\<open>operator==\<close>, the
  one-unit overloads of \<^verbatim>\<open>operator+\<close> and \<^verbatim>\<open>operator-\<close>) give the same
  result as the two-unit path at \<open>U1 = U2 = U\<close>, which goes through
  \<^verbatim>\<open>convert<U, U>\<close>. The results agree as values of the model: infinities, signed
  zeros and NaN included, NaN payloads apart.
\<close>

theorem same_unit_paths_agree:
  assumes "is_double b"
  shows "op_eq (Length U a) (Length U b) = op_eq_converted (Length U a) (Length U b)
     \<and> op_plus (Length U a) (Length U b) = op_plus_same (Length U a) (Length U b)
     \<and> op_plus_same (Length U a) (Length U b) = op_plus_units (Length U a) (Length U b)
     \<and> op_minus (Length U a) (Length U b) = op_minus_same (Length U a) (Length U b)
     \<and> op_minus_same (Length U a) (Length U b) = op_minus_units (Length U a) (Length U b)"
  using assms
  by (simp add: op_eq_def op_eq_converted_def op_plus_def op_plus_same_def op_plus_units_def
      op_minus_def op_minus_same_def op_minus_units_def convert_same value_of_def)

theorem same_unit_paths_agree_witness:
  "is_double (Finite True 0 (- 1074))
   \<and> op_plus_units (Length inch (Finite True 0 (- 1074))) (Length inch (Finite True 0 (- 1074)))
        = Length inch (Finite True 0 (- 1074))
   \<and> is_double NaN
   \<and> \<not> op_eq_converted (Length inch NaN) (Length inch NaN)
   \<and> op_minus_units (Length inch (Infinity False)) (Length inch NaN) = Length inch NaN"
proof -
  have h: "is_double (Finite True 0 (- 1074))" by simp
  have n: "is_double NaN" by simp
  have z: "op_plus_same (Length inch (Finite True 0 (- 1074))) (Length inch (Finite True 0 (- 1074)))
        = Length inch (Finite True 0 (- 1074))"
    by (simp add: op_plus_same_def value_of_def fround_def)
  have e: "\<not> op_eq (Length inch NaN) (Length inch NaN)"
    by (simp add: op_eq_def value_of_def)
  have m: "op_minus_same (Length inch (Infinity False)) (Length inch NaN) = Length inch NaN"
    by (simp add: op_minus_same_def value_of_def fsub_def)
  from same_unit_paths_agree [OF h, of inch "Finite True 0 (- 1074)"]
    same_unit_paths_agree [OF n, of inch NaN] same_unit_paths_agree [OF n, of inch "Infinity False"]
    h n z e m
  show ?thesis by simp
qed

section \<open>Division\<close>

text \<open>
  Claim C7. For all units \<open>U1\<close>, \<open>U2\<close> and all doubles \<open>a\<close>, \<open>b\<close>, dividing
  \<^verbatim>\<open>Length<U1>{a}\<close> by \<^verbatim>\<open>Length<U2>{b}\<close> gives the plain double \<open>a\<close> divided by
  the value of \<^verbatim>\<open>convert<U2, U1>(Length<U2>{b})\<close>; 2 mm divided by 1 cm is exactly the
  double that the literal \<^verbatim>\<open>0.2\<close> denotes, which is \<open>7205759403792794 * 2\<^sup>-\<^sup>5\<^sup>5\<close>.
\<close>

theorem op_div_ratio:
  "op_div (Length U1 a) (Length U2 b) = fdiv a (value_of (convert U2 U1 (Length U2 b)))
   \<and> op_div (Length millimetre (literal 2)) (Length centimetre (literal 1)) = literal (2 / 10)
   \<and> literal (2 / 10) = Finite False 7205759403792794 (- 55)"
proof -
  have 0: "op_div (Length U1 a) (Length U2 b) = fdiv a (value_of (convert U2 U1 (Length U2 b)))"
    by (simp add: op_div_def value_of_def)
  have 1: "op_div (Length millimetre (literal 2)) (Length centimetre (literal 1)) = literal (2 / 10)"
    by code_simp
  have 2: "literal (2 / 10) = Finite False 7205759403792794 (- 55)"
    by code_simp
  from 0 1 2 show ?thesis by (intro conjI)
qed

text \<open>
  Claim C8. For every unit \<open>U\<close> and every double \<open>m\<close>, dividing \<^verbatim>\<open>Length<U>{m}\<close> by
  the scalar \<^verbatim>\<open>0.0\<close> returns a \<^verbatim>\<open>Length<U>\<close> holding the IEEE quotient of \<open>m\<close>
  by zero: positive infinity when \<open>m > 0\<close>, negative infinity when \<open>m < 0\<close>, NaN when
  \<open>m\<close> is a zero or a NaN. The operator is a total function: it has no error result.
\<close>

theorem div_scalar_zero:
  assumes "is_double m"
  shows "op_div_scalar (Length U m) (literal 0) = Length U (fdiv m (literal 0))
     \<and> (flt (literal 0) m \<longrightarrow> fdiv m (literal 0) = Infinity False)
     \<and> (flt m (literal 0) \<longrightarrow> fdiv m (literal 0) = Infinity True)
     \<and> (feq m (literal 0) \<or> is_nan m \<longrightarrow> fdiv m (literal 0) = NaN)"
proof (cases m)
  case NaN
  then show ?thesis by (simp add: op_div_scalar_def value_of_def literal_0)
next
  case (Infinity s)
  then show ?thesis by (simp add: op_div_scalar_def value_of_def literal_0)
next
  case (Finite s n e)
  with assms have n: "0 \<le> n" by simp
  have p: "(0::rat) < 2 powi e" by simp
  have q: "\<not> (2::rat) powi e < 0" by (simp add: not_less)
  have z: "valof (Finite False 0 (- 1074)) = 0" by simp
  have v: "(0 < valof (Finite s n e)) = (\<not> s \<and> 0 < n)" "(valof (Finite s n e) < 0) = (s \<and> 0 < n)"
    "(valof (Finite s n e) = 0) = (n = 0)"
    using n p q by (auto simp: zero_less_mult_iff mult_less_0_iff)
  have 1: "op_div_scalar (Length U m) (literal 0) = Length U (fdiv m (literal 0))"
    by (simp add: op_div_scalar_def value_of_def)
  have 2: "flt (literal 0) m \<longrightarrow> fdiv m (literal 0) = Infinity False"
    unfolding Finite literal_0 flt.simps fdiv.simps z v by simp
  have 3: "flt m (literal 0) \<longrightarrow> fdiv m (literal 0) = Infinity True"
    unfolding Finite literal_0 flt.simps fdiv.simps z v by simp
  have 4: "feq m (literal 0) \<or> is_nan m \<longrightarrow> fdiv m (literal 0) = NaN"
    unfolding Finite literal_0 feq.simps fdiv.simps z v by simp
  from 1 2 3 4 show ?thesis by (intro conjI)
qed

theorem div_scalar_zero_witness:
  "is_double (literal 1) \<and> flt (literal 0) (literal 1)
   \<and> op_div_scalar (Length foot (literal 1)) (literal 0) = Length foot (Infinity False)
   \<and> is_double (fneg (literal 1)) \<and> flt (fneg (literal 1)) (literal 0)
   \<and> op_div_scalar (Length foot (fneg (literal 1))) (literal 0) = Length foot (Infinity True)
   \<and> is_double (literal 0) \<and> feq (literal 0) (literal 0)
   \<and> op_div_scalar (Length foot (literal 0)) (literal 0) = Length foot NaN"
proof -
  have h1: "is_double (literal 1)" and h2: "is_double (fneg (literal 1))"
    and h3: "is_double (literal 0)"
    by (simp_all add: literal_0 literal_1)
  have f1: "flt (literal 0) (literal 1)" and f2: "flt (fneg (literal 1)) (literal 0)"
    and f3: "feq (literal 0) (literal 0)"
    by (simp_all add: literal_0 literal_1)
  from div_scalar_zero [OF h1, of foot] div_scalar_zero [OF h2, of foot]
    div_scalar_zero [OF h3, of foot] h1 h2 h3 f1 f2 f3
  show ?thesis by simp
qed

section \<open>The assertions of the header\<close>

text \<open>
  The \<^verbatim>\<open>static_assert\<close> declarations at the end of the header (lines 167 to 188)
  are its own tests. Each of them holds in the embedding. A unit-suffix literal such as
  \<^verbatim>\<open>100_cm\<close> is \<^verbatim>\<open>Length<centimetre>{static_cast<double>(100)}\<close>.
\<close>

lemma static_asserts_literals:
  "op_eq (Length metre (literal 1)) (Length centimetre (literal 100))"
  "op_eq (Length inch (literal 12)) (Length foot (literal 1))"
  "op_eq (Length foot (literal 1)) (Length inch (literal 12))"
  "op_eq (Length centimetre (literal 250)) (Length metre (literal (25 / 10)))"
  by code_simp+

lemma static_asserts_objects:
  "op_eq (Length metre (literal (25 / 10))) (Length centimetre (literal 250))"
  "op_eq (Length foot (literal 3)) (Length inch (literal 36))"
  "op_eq (Length millimetre (literal 2)) (Length centimetre (literal (2 / 10)))"
  "op_eq (Length metre (literal 2)) (convert centimetre millimetre (Length centimetre (literal 200)))"
  "op_eq (Length millimetre (literal 2))
     (convert centimetre metre (Length centimetre (literal (2 / 10))))"
  "op_eq (Length metre (literal 1)) (Length inch (fdiv (literal 1) (literal (254 / 10000))))"
  by code_simp+

lemma static_asserts_operations:
  "op_eq (op_times_left (literal 4) (Length metre (literal 1)))
     (op_times_right (Length centimetre (literal 50)) (literal 8))"
  "op_eq (op_times_right (Length millimetre (literal 2)) (literal 10))
     (op_times_left (literal (5 / 10)) (Length centimetre (literal 4)))"
  "op_eq (op_times_right (Length millimetre (literal 2)) (literal 10))
     (op_div_scalar (Length centimetre (literal 4)) (literal 2))"
  "op_eq (op_plus (Length millimetre (literal 200)) (op_div_scalar (Length metre (literal 3)) (literal 6)))
     (op_plus (op_times_left (literal 2) (Length centimetre (literal 10)))
        (op_div_scalar (Length centimetre (literal 50)) (literal 1)))"
  "op_eq (op_div_scalar (Length metre (literal 2)) (literal 2))
     (op_div_scalar (Length inch (literal 1)) (literal (254 / 10000)))"
  "feq (value_of (op_times_left
          (op_div (op_plus (op_times_left (literal 2) (Length metre (literal 5))) (Length metre (literal 10)))
             (Length centimetre (literal 200)))
          (Length metre (literal 1))))
     (literal 10)"
  by code_simp+

text \<open>
  Claim C9. With the arithmetic of doubles, 200 mm plus 3 m scaled by \<^verbatim>\<open>1.0/6.0\<close> is
  equal (by \<^verbatim>\<open>operator==\<close>) to 10 cm scaled by 2 plus 50 cm scaled by 1; the left side
  is exactly 700 mm and the right side exactly 70 cm. The header asserts the same sum with
  \<^verbatim>\<open>3_m / 6\<close> and \<^verbatim>\<open>50_cm / 1.0\<close> on line 186, which is the fourth statement
  of \<open>static_asserts_operations\<close>.
\<close>

theorem assert_700mm:
  "op_eq (op_plus (Length millimetre (literal 200))
            (op_times_right (Length metre (literal 3)) (fdiv (literal 1) (literal 6))))
         (op_plus (op_times_right (Length centimetre (literal 10)) (literal 2))
            (op_times_right (Length centimetre (literal 50)) (literal 1)))
   \<and> op_plus (Length millimetre (literal 200))
            (op_times_right (Length metre (literal 3)) (fdiv (literal 1) (literal 6)))
       = Length millimetre (literal 700)
   \<and> op_plus (op_times_right (Length centimetre (literal 10)) (literal 2))
            (op_times_right (Length centimetre (literal 50)) (literal 1))
       = Length centimetre (literal 70)"
  by code_simp

end
